theory Spec2Isabelle
  imports Main "HOL-Library.Word"
begin

unbundle bit_operations_syntax

section \<open>SyncBus: frame codec, client and server\<close>

text \<open>
  A shallow embedding of \<^verbatim>\<open>SyncBus.hpp\<close>. Machine integers are words of the
  width the source declares (\<^verbatim>\<open>uint8_t\<close>, \<^verbatim>\<open>uint16_t\<close>, \<^verbatim>\<open>uint32_t\<close>).
  Application buffers are reached through \<^verbatim>\<open>void *\<close> pointers: they live in a
  byte-addressed memory, a pointer is an address and \<^verbatim>\<open>nullptr\<close> is address 0.
  A frame handed to \<^verbatim>\<open>inputData\<close> is the sequence of bytes behind the
  \<^verbatim>\<open>const uint8_t *\<close> together with the \<^verbatim>\<open>uint8_t size\<close> the caller passes.
  The two callbacks are \<^verbatim>\<open>void\<close> functions the library calls and whose result it
  never reads: every operation returns, next to its result code, the list of callback
  invocations it made, in the order it made them.
\<close>

subsection \<open>Constants and types\<close>

type_synonym u8 = "8 word"
type_synonym u16 = "16 word"
type_synonym u32 = "32 word"

text \<open>\<^verbatim>\<open>#define PROTO_BUS_BUFFER_SIZE 64U\<close> and \<^verbatim>\<open>#define SyncBus_ENABLE_SET_ACK 1\<close>,
  the values the header gives when the build does not override them.\<close>

definition PROTO_BUS_BUFFER_SIZE :: nat where
  "PROTO_BUS_BUFFER_SIZE = 64"

definition SyncBus_ENABLE_SET_ACK :: bool where
  "SyncBus_ENABLE_SET_ACK = True"

definition FrameServerId :: nat where "FrameServerId = 0"
definition FrameSlotId :: nat where "FrameSlotId = 4"
definition FrameFunction :: nat where "FrameFunction = 5"
definition FrameData :: nat where "FrameData = 6"
definition HeaderSize :: u8 where "HeaderSize = 6"

text \<open>\<^verbatim>\<open>enum class SyncBusFunc : uint8_t\<close>; the source reads the function byte of a
  frame with a \<^verbatim>\<open>static_cast\<close> and compares it with the enumerators, so the codes
  are kept as bytes.\<close>

definition GetReq :: u8 where "GetReq = 0"
definition SetReq :: u8 where "SetReq = 1"
definition GetResp :: u8 where "GetResp = 2"
definition SetResp :: u8 where "SetResp = 3"

datatype result = ok | errOverflow | errCrc | errFault

text \<open>A call of \<^verbatim>\<open>SyncBusSendData_cb(data, size)\<close> is recorded with the
  \<^verbatim>\<open>size\<close> bytes behind \<^verbatim>\<open>data\<close>; a call of \<^verbatim>\<open>SyncBusDataChanged_cb(slotId)\<close>
  with the slot id.\<close>

datatype event = Send "u8 list" u8 | Changed u8

type_synonym ptr = nat
type_synonym memory = "ptr \<Rightarrow> u8"

definition nullptr :: ptr where "nullptr = 0"

subsection \<open>Memory and array helpers\<close>

text \<open>\<^verbatim>\<open>std::memcpy(dst, src, n)\<close> with the destination in application memory:
  byte \<open>k\<close> of the source goes to address \<open>dst + k\<close>.\<close>

definition memcpy_to_mem :: "memory \<Rightarrow> ptr \<Rightarrow> u8 list \<Rightarrow> memory" where
  "memcpy_to_mem h dst src =
     (\<lambda>a. if dst \<le> a \<and> a < dst + length src then src ! (a - dst) else h a)"

text \<open>The \<open>n\<close> bytes of application memory from address \<open>p\<close> on.\<close>

definition load :: "memory \<Rightarrow> ptr \<Rightarrow> nat \<Rightarrow> u8 list" where
  "load h p n = map (\<lambda>k. h (p + k)) [0..<n]"

text \<open>\<^verbatim>\<open>std::memcpy(&buf[off], src, n)\<close> with the destination inside an array: one
  element after the other.\<close>

fun memcpy_to_buf :: "u8 list \<Rightarrow> nat \<Rightarrow> u8 list \<Rightarrow> u8 list" where
  "memcpy_to_buf buf off [] = buf"
| "memcpy_to_buf buf off (b # bs) = memcpy_to_buf (buf[off := b]) (Suc off) bs"

subsection \<open>Endianness helpers\<close>

definition write_le32 :: "u8 list \<Rightarrow> nat \<Rightarrow> u32 \<Rightarrow> u8 list" where
  "write_le32 buf dst v =
     buf[dst := ucast (v AND 0xFF),
         dst + 1 := ucast (drop_bit 8 v AND 0xFF),
         dst + 2 := ucast (drop_bit 16 v AND 0xFF),
         dst + 3 := ucast (drop_bit 24 v AND 0xFF)]"

definition read_le32 :: "u8 list \<Rightarrow> nat \<Rightarrow> u32" where
  "read_le32 buf src =
     ucast (buf ! src) OR push_bit 8 (ucast (buf ! (src + 1)))
       OR push_bit 16 (ucast (buf ! (src + 2)))
       OR push_bit 24 (ucast (buf ! (src + 3)))"

subsection \<open>CRC16 (Modbus)\<close>

text \<open>One turn of the inner loop: shift right, and fold in \<^verbatim>\<open>0xA001\<close> when the bit
  shifted out was set.\<close>

definition crc16_shift :: "u16 \<Rightarrow> u16" where
  "crc16_shift crc =
     (let lsb = (crc AND 0x0001 \<noteq> 0); crc1 = drop_bit 1 crc
      in if lsb then crc1 XOR 0xA001 else crc1)"

text \<open>The body of the outer loop: \<^verbatim>\<open>crc ^= buff[pos]\<close>, then the inner loop, which
  runs for \<open>i = 0, \<dots>, 7\<close>.\<close>

definition crc16_byte :: "u16 \<Rightarrow> u8 \<Rightarrow> u16" where
  "crc16_byte crc b = (crc16_shift ^^ 8) (crc XOR ucast b)"

text \<open>The outer loop \<^verbatim>\<open>for (uint8_t pos = 0U; pos < len; ++pos)\<close>, which
  \<^verbatim>\<open>genCRC16\<close> and \<^verbatim>\<open>checkCRC16\<close> both contain word for word.\<close>

function crc16_loop :: "u8 list \<Rightarrow> u8 \<Rightarrow> u8 \<Rightarrow> u16 \<Rightarrow> u16" where
  "crc16_loop buff len pos crc =
     (if pos < len then crc16_loop buff len (pos + 1) (crc16_byte crc (buff ! unat pos))
      else crc)"
  by pat_completeness auto
termination
proof (relation "measure (\<lambda>(buff, len, pos, crc). unat len - unat pos)")
  show "wf (measure (\<lambda>(buff, len, pos, crc). unat len - unat pos))"
    by simp
next
  fix buff :: "u8 list" and len pos :: u8 and crc :: u16
  assume less: "pos < len"
  then have "unat (pos + 1) = Suc (unat pos)"
    by unat_arith
  moreover from less have "unat pos < unat len"
    by (simp add: word_less_nat_alt)
  ultimately show "((buff, len, pos + 1, crc16_byte crc (buff ! unat pos)), (buff, len, pos, crc))
      \<in> measure (\<lambda>(buff, len, pos, crc). unat len - unat pos)"
    by simp
qed

declare crc16_loop.simps [simp del]

text \<open>\<^verbatim>\<open>genCRC16\<close> writes the two checksum bytes behind the \<open>len\<close> bytes it summed
  and returns the new length; \<^verbatim>\<open>len\<close> is a \<^verbatim>\<open>uint8_t\<close> and is incremented twice.\<close>

definition genCRC16 :: "u8 list \<Rightarrow> u8 \<Rightarrow> u8 list \<times> u8" where
  "genCRC16 buff len =
     (let crc = crc16_loop buff len 0 0xFFFF;
          lo = (ucast (crc AND 0xFF) :: u8);
          hi = (ucast (drop_bit 8 crc AND 0xFF) :: u8);
          buff1 = buff[unat len := lo];
          len1 = len + 1;
          buff2 = buff1[unat len1 := hi];
          len2 = len1 + 1
      in (buff2, len2))"

definition checkCRC16 :: "u8 list \<Rightarrow> u8 \<Rightarrow> bool" where
  "checkCRC16 buff len =
     (if len < 2 then False
      else
        let body = len - 2;
            crc = crc16_loop buff body 0 0xFFFF;
            lo = (ucast (crc AND 0xFF) :: u8);
            hi = (ucast (drop_bit 8 crc AND 0xFF) :: u8)
        in buff ! unat (len - 2) = lo \<and> buff ! unat (len - 1) = hi)"

subsection \<open>Slot records and callbacks\<close>

text \<open>\<^verbatim>\<open>struct serverData_t { void *data; uint32_t serverId; uint8_t slotId; uint8_t size; }\<close>
  (an entry of the client's table) and
  \<^verbatim>\<open>struct clientSlot_t { void *data; uint8_t slotId; uint8_t size; }\<close>
  (an entry of the server's table). The fields carry the struct's initials, since
  both structs use the same field names.\<close>

record serverData_t =
  sd_data :: ptr
  sd_serverId :: u32
  sd_slotId :: u8
  sd_size :: u8

record clientSlot_t =
  cs_data :: ptr
  cs_slotId :: u8
  cs_size :: u8

text \<open>A callback field holds \<open>True\<close> when the function pointer is not \<^verbatim>\<open>nullptr\<close>.
  \<^verbatim>\<open>if (cb != nullptr) cb(...)\<close> then adds one invocation to the trace, or none.\<close>

definition call_sendData_cb :: "bool \<Rightarrow> u8 list \<Rightarrow> u8 \<Rightarrow> event list" where
  "call_sendData_cb cb buf sz = (if cb then [Send (take (unat sz) buf) sz] else [])"

definition call_dataChanged_cb :: "bool \<Rightarrow> u8 \<Rightarrow> event list" where
  "call_dataChanged_cb cb slotId = (if cb then [Changed slotId] else [])"

subsection \<open>Client\<close>

text \<open>\<^verbatim>\<open>template<uint8_t numSlots> class SyncBusClient\<close>: the template parameter is
  the field \<open>numSlots_c\<close>; the member arrays are lists, \<open>m_serveSlots\<close> of
  \<open>numSlots\<close> entries and \<open>m_buffer_c\<close> of \<^verbatim>\<open>PROTO_BUS_BUFFER_SIZE\<close> bytes.\<close>

record SyncBusClient =
  numSlots_c :: u8
  m_numSlots_c :: u8
  m_serveSlots :: "serverData_t list"
  m_sendData_cb_c :: bool
  m_dataChanged_cb_c :: bool
  m_buffer_c :: "u8 list"

text \<open>The constructor sets the count and the callbacks. It leaves the two arrays as
  they are: their contents before the first write are the arguments \<open>slots0\<close> and
  \<open>buf0\<close>.\<close>

definition SyncBusClient_new ::
  "u8 \<Rightarrow> bool \<Rightarrow> bool \<Rightarrow> serverData_t list \<Rightarrow> u8 list \<Rightarrow> SyncBusClient" where
  "SyncBusClient_new n SendData_cb DataChanged_cb slots0 buf0 =
     \<lparr>numSlots_c = n, m_numSlots_c = 0, m_serveSlots = slots0,
      m_sendData_cb_c = SendData_cb, m_dataChanged_cb_c = DataChanged_cb,
      m_buffer_c = buf0\<rparr>"

definition getData ::
  "SyncBusClient \<Rightarrow> u32 \<Rightarrow> u8 \<Rightarrow> result \<times> SyncBusClient \<times> event list" where
  "getData c serverId slot =
     (if slot \<ge> m_numSlots_c c then (errOverflow, c, [])
      else if sd_data (m_serveSlots c ! unat slot) = nullptr then (errFault, c, [])
      else if unat HeaderSize + 2 > PROTO_BUS_BUFFER_SIZE then (errOverflow, c, [])
      else
        let b1 = write_le32 (m_buffer_c c) FrameServerId serverId;
            b2 = b1[FrameSlotId := sd_slotId (m_serveSlots c ! unat slot)];
            b3 = b2[FrameFunction := GetReq];
            (b4, sz) = genCRC16 b3 HeaderSize
        in (ok, c\<lparr>m_buffer_c := b4\<rparr>, call_sendData_cb (m_sendData_cb_c c) b4 sz))"

definition setData ::
  "memory \<Rightarrow> SyncBusClient \<Rightarrow> u32 \<Rightarrow> u8 \<Rightarrow> result \<times> SyncBusClient \<times> event list" where
  "setData h c serverId slot =
     (if slot \<ge> m_numSlots_c c then (errOverflow, c, [])
      else if sd_data (m_serveSlots c ! unat slot) = nullptr then (errFault, c, [])
      else
        let payload = sd_size (m_serveSlots c ! unat slot);
            totalNoCrc = (ucast HeaderSize :: u16) + ucast payload
        in if unat totalNoCrc + 2 > PROTO_BUS_BUFFER_SIZE then (errOverflow, c, [])
           else
             let b1 = write_le32 (m_buffer_c c) FrameServerId serverId;
                 b2 = b1[FrameSlotId := sd_slotId (m_serveSlots c ! unat slot)];
                 b3 = b2[FrameFunction := SetReq];
                 b4 = memcpy_to_buf b3 FrameData
                        (load h (sd_data (m_serveSlots c ! unat slot)) (unat payload));
                 (b5, sz) = genCRC16 b4 (ucast totalNoCrc)
             in (ok, c\<lparr>m_buffer_c := b5\<rparr>, call_sendData_cb (m_sendData_cb_c c) b5 sz))"

text \<open>The body of the loop of the \<^verbatim>\<open>GetResp\<close> branch at an entry \<open>i\<close> with the
  frame's server id and slot id: \<^verbatim>\<open>return result::errFault\<close> when the sizes differ,
  else the copy, the notification and \<^verbatim>\<open>break\<close>, after which the function returns
  \<^verbatim>\<open>result::ok\<close>.\<close>

definition getResp_apply ::
  "memory \<Rightarrow> SyncBusClient \<Rightarrow> u8 list \<Rightarrow> u8 \<Rightarrow> u8 \<Rightarrow> u8
     \<Rightarrow> result \<times> memory \<times> event list" where
  "getResp_apply h c data slotId payloadLen i =
     (if payloadLen \<noteq> sd_size (m_serveSlots c ! unat i) then (errFault, h, [])
      else (ok,
            memcpy_to_mem h (sd_data (m_serveSlots c ! unat i))
              (take (unat payloadLen) (drop FrameData data)),
            call_dataChanged_cb (m_dataChanged_cb_c c) slotId))"

text \<open>The loop itself, from index \<open>i\<close> on.\<close>

function getResp_loop ::
  "memory \<Rightarrow> SyncBusClient \<Rightarrow> u8 list \<Rightarrow> u32 \<Rightarrow> u8 \<Rightarrow> u8 \<Rightarrow> u8
     \<Rightarrow> result \<times> memory \<times> event list" where
  "getResp_loop h c data serverId slotId payloadLen i =
     (if i < m_numSlots_c c then
        (if sd_serverId (m_serveSlots c ! unat i) = serverId
            \<and> sd_slotId (m_serveSlots c ! unat i) = slotId
         then getResp_apply h c data slotId payloadLen i
         else getResp_loop h c data serverId slotId payloadLen (i + 1))
      else (ok, h, []))"
  by pat_completeness auto
termination
proof (relation "measure (\<lambda>(h, c, data, serverId, slotId, payloadLen, i).
                   unat (m_numSlots_c c) - unat i)")
  show "wf (measure (\<lambda>(h, c, data, serverId, slotId, payloadLen, i).
                   unat (m_numSlots_c c) - unat i))"
    by simp
next
  fix h :: memory and c :: SyncBusClient and data :: "u8 list" and serverId :: u32
    and slotId payloadLen i :: u8
  assume less: "i < m_numSlots_c c"
  then have "unat (i + 1) = Suc (unat i)"
    by unat_arith
  moreover from less have "unat i < unat (m_numSlots_c c)"
    by (simp add: word_less_nat_alt)
  ultimately show "((h, c, data, serverId, slotId, payloadLen, i + 1),
                    (h, c, data, serverId, slotId, payloadLen, i))
      \<in> measure (\<lambda>(h, c, data, serverId, slotId, payloadLen, i).
                   unat (m_numSlots_c c) - unat i)"
    by simp
qed

declare getResp_loop.simps [simp del]

text \<open>The client's \<^verbatim>\<open>inputData\<close>. It changes no member of the client; it returns the
  result, the application memory and the callback invocations.\<close>

definition inputData_c ::
  "memory \<Rightarrow> SyncBusClient \<Rightarrow> u8 list \<Rightarrow> u8 \<Rightarrow> result \<times> memory \<times> event list" where
  "inputData_c h c data sz =
     (if sz < HeaderSize + 2 then (errFault, h, [])
      else if \<not> checkCRC16 data sz then (errCrc, h, [])
      else
        let serverId = read_le32 data FrameServerId;
            func = data ! FrameFunction;
            slotId = data ! FrameSlotId;
            payloadLen = sz - HeaderSize - 2
        in if func = GetResp then getResp_loop h c data serverId slotId payloadLen 0
           else if func = SetResp then (ok, h, [])
           else (ok, h, []))"

definition addData ::
  "SyncBusClient \<Rightarrow> ptr \<Rightarrow> u32 \<Rightarrow> u8 \<Rightarrow> u8 \<Rightarrow> result \<times> SyncBusClient" where
  "addData c data serverId slotId sz =
     (if data = nullptr then (errFault, c)
      else if m_numSlots_c c \<ge> numSlots_c c then (errOverflow, c)
      else if unat HeaderSize + unat sz + 2 > PROTO_BUS_BUFFER_SIZE then (errOverflow, c)
      else (ok, c\<lparr>m_serveSlots := (m_serveSlots c)[unat (m_numSlots_c c) :=
                       \<lparr>sd_data = data, sd_serverId = serverId, sd_slotId = slotId,
                        sd_size = sz\<rparr>],
                  m_numSlots_c := m_numSlots_c c + 1\<rparr>))"

subsection \<open>Server\<close>

record SyncBusServer =
  numSlots_s :: u8
  m_serverId :: u32
  m_numSlots_s :: u8
  m_clientSlots :: "clientSlot_t list"
  m_sendData_cb_s :: bool
  m_dataChanged_cb_s :: bool
  m_buffer_s :: "u8 list"

text \<open>The two constructors differ in the callbacks only: the one-argument constructor
  is the other one with both callbacks \<^verbatim>\<open>nullptr\<close>.\<close>

definition SyncBusServer_new ::
  "u8 \<Rightarrow> u32 \<Rightarrow> bool \<Rightarrow> bool \<Rightarrow> clientSlot_t list \<Rightarrow> u8 list \<Rightarrow> SyncBusServer" where
  "SyncBusServer_new n ident SendData_cb DataChanged_cb slots0 buf0 =
     \<lparr>numSlots_s = n, m_serverId = ident, m_numSlots_s = 0, m_clientSlots = slots0,
      m_sendData_cb_s = SendData_cb, m_dataChanged_cb_s = DataChanged_cb,
      m_buffer_s = buf0\<rparr>"

definition setId :: "SyncBusServer \<Rightarrow> u32 \<Rightarrow> SyncBusServer" where
  "setId s serverId = s\<lparr>m_serverId := serverId\<rparr>"

text \<open>The body of the loop of the \<^verbatim>\<open>GetReq\<close> branch at an entry \<open>i\<close> with the
  frame's slot id.\<close>

definition getReq_respond ::
  "memory \<Rightarrow> SyncBusServer \<Rightarrow> u8 \<Rightarrow> u8 \<Rightarrow> result \<times> SyncBusServer \<times> event list" where
  "getReq_respond h s slotId i =
     (let payload = cs_size (m_clientSlots s ! unat i);
          totalNoCrc = (ucast HeaderSize :: u16) + ucast payload
      in if unat totalNoCrc + 2 > PROTO_BUS_BUFFER_SIZE then (errOverflow, s, [])
         else
           let b1 = write_le32 (m_buffer_s s) FrameServerId (m_serverId s);
               b2 = b1[FrameSlotId := slotId];
               b3 = b2[FrameFunction := GetResp];
               b4 = memcpy_to_buf b3 FrameData
                      (load h (cs_data (m_clientSlots s ! unat i)) (unat payload));
               (b5, responseSize) = genCRC16 b4 (ucast totalNoCrc)
           in (ok, s\<lparr>m_buffer_s := b5\<rparr>,
               call_sendData_cb (m_sendData_cb_s s) b5 responseSize))"

text \<open>The loop itself, from index \<open>i\<close> on.\<close>

function getReq_loop ::
  "memory \<Rightarrow> SyncBusServer \<Rightarrow> u8 \<Rightarrow> u8 \<Rightarrow> result \<times> SyncBusServer \<times> event list" where
  "getReq_loop h s slotId i =
     (if i < m_numSlots_s s then
        (if cs_slotId (m_clientSlots s ! unat i) = slotId then getReq_respond h s slotId i
         else getReq_loop h s slotId (i + 1))
      else (ok, s, []))"
  by pat_completeness auto
termination
proof (relation "measure (\<lambda>(h, s, slotId, i). unat (m_numSlots_s s) - unat i)")
  show "wf (measure (\<lambda>(h, s, slotId, i). unat (m_numSlots_s s) - unat i))"
    by simp
next
  fix h :: memory and s :: SyncBusServer and slotId i :: u8
  assume less: "i < m_numSlots_s s"
  then have "unat (i + 1) = Suc (unat i)"
    by unat_arith
  moreover from less have "unat i < unat (m_numSlots_s s)"
    by (simp add: word_less_nat_alt)
  ultimately show "((h, s, slotId, i + 1), (h, s, slotId, i))
      \<in> measure (\<lambda>(h, s, slotId, i). unat (m_numSlots_s s) - unat i)"
    by simp
qed

declare getReq_loop.simps [simp del]

text \<open>The body of the loop of the \<^verbatim>\<open>SetReq\<close> branch at an entry \<open>i\<close> with the
  frame's slot id. The acknowledgement is compiled in when
  \<^verbatim>\<open>SyncBus_ENABLE_SET_ACK\<close> is set.\<close>

definition setReq_apply ::
  "memory \<Rightarrow> SyncBusServer \<Rightarrow> u8 list \<Rightarrow> u8 \<Rightarrow> u8 \<Rightarrow> u8
     \<Rightarrow> result \<times> memory \<times> SyncBusServer \<times> event list" where
  "setReq_apply h s data slotId payloadLen i =
     (if payloadLen \<noteq> cs_size (m_clientSlots s ! unat i) then (errFault, h, s, [])
      else
        let h1 = memcpy_to_mem h (cs_data (m_clientSlots s ! unat i))
                   (take (unat payloadLen) (drop FrameData data));
            ev = call_dataChanged_cb (m_dataChanged_cb_s s) slotId
        in if SyncBus_ENABLE_SET_ACK then
             (if unat HeaderSize + 2 > PROTO_BUS_BUFFER_SIZE
              then (errOverflow, h1, s, ev)
              else
                let b1 = write_le32 (m_buffer_s s) FrameServerId (m_serverId s);
                    b2 = b1[FrameSlotId := slotId];
                    b3 = b2[FrameFunction := SetResp];
                    (b4, ackSize) = genCRC16 b3 HeaderSize
                in (ok, h1, s\<lparr>m_buffer_s := b4\<rparr>,
                    ev @ call_sendData_cb (m_sendData_cb_s s) b4 ackSize))
           else (ok, h1, s, ev))"

text \<open>The loop itself, from index \<open>i\<close> on.\<close>

function setReq_loop ::
  "memory \<Rightarrow> SyncBusServer \<Rightarrow> u8 list \<Rightarrow> u8 \<Rightarrow> u8 \<Rightarrow> u8
     \<Rightarrow> result \<times> memory \<times> SyncBusServer \<times> event list" where
  "setReq_loop h s data slotId payloadLen i =
     (if i < m_numSlots_s s then
        (if cs_slotId (m_clientSlots s ! unat i) = slotId
         then setReq_apply h s data slotId payloadLen i
         else setReq_loop h s data slotId payloadLen (i + 1))
      else (ok, h, s, []))"
  by pat_completeness auto
termination
proof (relation "measure (\<lambda>(h, s, data, slotId, payloadLen, i).
                   unat (m_numSlots_s s) - unat i)")
  show "wf (measure (\<lambda>(h, s, data, slotId, payloadLen, i).
                   unat (m_numSlots_s s) - unat i))"
    by simp
next
  fix h :: memory and s :: SyncBusServer and data :: "u8 list" and slotId payloadLen i :: u8
  assume less: "i < m_numSlots_s s"
  then have "unat (i + 1) = Suc (unat i)"
    by unat_arith
  moreover from less have "unat i < unat (m_numSlots_s s)"
    by (simp add: word_less_nat_alt)
  ultimately show "((h, s, data, slotId, payloadLen, i + 1), (h, s, data, slotId, payloadLen, i))
      \<in> measure (\<lambda>(h, s, data, slotId, payloadLen, i). unat (m_numSlots_s s) - unat i)"
    by simp
qed

declare setReq_loop.simps [simp del]

text \<open>The server's \<^verbatim>\<open>inputData\<close>.\<close>

definition inputData_s ::
  "memory \<Rightarrow> SyncBusServer \<Rightarrow> u8 list \<Rightarrow> u8
     \<Rightarrow> result \<times> memory \<times> SyncBusServer \<times> event list" where
  "inputData_s h s data sz =
     (if sz < HeaderSize + 2 then (errFault, h, s, [])
      else if \<not> checkCRC16 data sz then (errCrc, h, s, [])
      else
        let serverId = read_le32 data FrameServerId
        in if serverId \<noteq> m_serverId s then (ok, h, s, [])
           else
             let slotId = data ! FrameSlotId;
                 func = data ! FrameFunction;
                 payloadLen = sz - HeaderSize - 2
             in if func = GetReq then
                  (case getReq_loop h s slotId 0 of (r, s1, ev) \<Rightarrow> (r, h, s1, ev))
                else if func = SetReq then setReq_loop h s data slotId payloadLen 0
                else (ok, h, s, []))"

definition addSlot :: "SyncBusServer \<Rightarrow> ptr \<Rightarrow> u8 \<Rightarrow> u8 \<Rightarrow> result \<times> SyncBusServer" where
  "addSlot s data slotId sz =
     (if data = nullptr then (errFault, s)
      else if m_numSlots_s s \<ge> numSlots_s s then (errOverflow, s)
      else if unat HeaderSize + unat sz + 2 > PROTO_BUS_BUFFER_SIZE then (errOverflow, s)
      else (ok, s\<lparr>m_clientSlots := (m_clientSlots s)[unat (m_numSlots_s s) :=
                       \<lparr>cs_data = data, cs_slotId = slotId, cs_size = sz\<rparr>],
                  m_numSlots_s := m_numSlots_s s + 1\<rparr>))"

subsection \<open>The wiring of the example\<close>

text \<open>\<^verbatim>\<open>example_1.cpp\<close> wires the two send callbacks to the peer:
  \<^verbatim>\<open>clientSend(data, size)\<close> calls \<^verbatim>\<open>g_server.inputData(data, size)\<close> and
  \<^verbatim>\<open>serverSend(data, size)\<close> calls \<^verbatim>\<open>g_client.inputData(data, size)\<close>. Here they
  run over the invocations an operation recorded; each returns the results of the
  \<^verbatim>\<open>inputData\<close> calls it made (which the example drops) and what these calls
  left behind.\<close>

fun clientSend ::
  "memory \<Rightarrow> SyncBusServer \<Rightarrow> event list
     \<Rightarrow> result list \<times> memory \<times> SyncBusServer \<times> event list" where
  "clientSend hs s [] = ([], hs, s, [])"
| "clientSend hs s (Send data sz # evs) =
     (case inputData_s hs s data sz of (r, hs1, s1, ev) \<Rightarrow>
        (case clientSend hs1 s1 evs of (rs, hs2, s2, ev2) \<Rightarrow> (r # rs, hs2, s2, ev @ ev2)))"
| "clientSend hs s (Changed slotId # evs) = clientSend hs s evs"

fun serverSend ::
  "memory \<Rightarrow> SyncBusClient \<Rightarrow> event list \<Rightarrow> result list \<times> memory \<times> event list" where
  "serverSend hc c [] = ([], hc, [])"
| "serverSend hc c (Send data sz # evs) =
     (case inputData_c hc c data sz of (r, hc1, ev) \<Rightarrow>
        (case serverSend hc1 c evs of (rs, hc2, ev2) \<Rightarrow> (r # rs, hc2, ev @ ev2)))"
| "serverSend hc c (Changed slotId # evs) = serverSend hc c evs"

text \<open>A GET over the wiring: the client's \<^verbatim>\<open>getData\<close>, the server's
  \<^verbatim>\<open>inputData\<close> on the request, the client's \<^verbatim>\<open>inputData\<close> on the response.
  The value is the results of the calls in the order they were entered, the
  client's memory at the end, and the invocations of the client's own callbacks
  during its \<^verbatim>\<open>inputData\<close>.\<close>

definition get_exchange ::
  "memory \<Rightarrow> SyncBusClient \<Rightarrow> memory \<Rightarrow> SyncBusServer \<Rightarrow> u32 \<Rightarrow> u8
     \<Rightarrow> result list \<times> memory \<times> event list" where
  "get_exchange hc c hs s serverId slot =
     (case getData c serverId slot of (r1, c1, ev1) \<Rightarrow>
        (case clientSend hs s ev1 of (rs2, hs2, s2, ev2) \<Rightarrow>
           (case serverSend hc c1 ev2 of (rs3, hc3, ev3) \<Rightarrow> (r1 # rs2 @ rs3, hc3, ev3))))"

subsection \<open>Tables, well-formed states and runs\<close>

text \<open>Entry \<open>k\<close> of the client's table is for server \<open>serverId\<close> and slot
  \<open>slotId\<close>; entry \<open>k\<close> of the server's table is for slot \<open>slotId\<close>. These are the
  tests of the \<^verbatim>\<open>if\<close> inside the loops.\<close>

definition binding_matches :: "SyncBusClient \<Rightarrow> u32 \<Rightarrow> u8 \<Rightarrow> nat \<Rightarrow> bool" where
  "binding_matches c serverId slotId k \<longleftrightarrow>
     sd_serverId (m_serveSlots c ! k) = serverId \<and> sd_slotId (m_serveSlots c ! k) = slotId"

definition slot_matches :: "SyncBusServer \<Rightarrow> u8 \<Rightarrow> nat \<Rightarrow> bool" where
  "slot_matches s slotId k \<longleftrightarrow> cs_slotId (m_clientSlots s ! k) = slotId"

text \<open>The entry a scan from index 0 stops at: the first registered one that matches.\<close>

definition first_binding :: "SyncBusClient \<Rightarrow> u32 \<Rightarrow> u8 \<Rightarrow> nat \<Rightarrow> bool" where
  "first_binding c serverId slotId j \<longleftrightarrow>
     j < unat (m_numSlots_c c) \<and> binding_matches c serverId slotId j
       \<and> \<not> list_ex (binding_matches c serverId slotId) [0..<j]"

definition first_slot :: "SyncBusServer \<Rightarrow> u8 \<Rightarrow> nat \<Rightarrow> bool" where
  "first_slot s slotId j \<longleftrightarrow>
     j < unat (m_numSlots_s s) \<and> slot_matches s slotId j
       \<and> \<not> list_ex (slot_matches s slotId) [0..<j]"

definition no_binding :: "SyncBusClient \<Rightarrow> u32 \<Rightarrow> u8 \<Rightarrow> bool" where
  "no_binding c serverId slotId \<longleftrightarrow>
     \<not> list_ex (binding_matches c serverId slotId) [0..<unat (m_numSlots_c c)]"

definition no_slot :: "SyncBusServer \<Rightarrow> u8 \<Rightarrow> bool" where
  "no_slot s slotId \<longleftrightarrow> \<not> list_ex (slot_matches s slotId) [0..<unat (m_numSlots_s s)]"

text \<open>The member arrays have the lengths their C++ types give them.\<close>

definition client_arrays :: "SyncBusClient \<Rightarrow> bool" where
  "client_arrays c \<longleftrightarrow>
     length (m_serveSlots c) = unat (numSlots_c c)
       \<and> length (m_buffer_c c) = PROTO_BUS_BUFFER_SIZE"

definition server_arrays :: "SyncBusServer \<Rightarrow> bool" where
  "server_arrays s \<longleftrightarrow>
     length (m_clientSlots s) = unat (numSlots_s s)
       \<and> length (m_buffer_s s) = PROTO_BUS_BUFFER_SIZE"

text \<open>The slot-table invariant: the count is within the capacity, and every registered
  entry has a buffer and fits a frame.\<close>

definition client_table_ok :: "SyncBusClient \<Rightarrow> bool" where
  "client_table_ok c \<longleftrightarrow>
     m_numSlots_c c \<le> numSlots_c c
       \<and> list_all (\<lambda>e. sd_data e \<noteq> nullptr
                      \<and> unat HeaderSize + unat (sd_size e) + 2 \<le> PROTO_BUS_BUFFER_SIZE)
           (take (unat (m_numSlots_c c)) (m_serveSlots c))"

definition server_table_ok :: "SyncBusServer \<Rightarrow> bool" where
  "server_table_ok s \<longleftrightarrow>
     m_numSlots_s s \<le> numSlots_s s
       \<and> list_all (\<lambda>e. cs_data e \<noteq> nullptr
                      \<and> unat HeaderSize + unat (cs_size e) + 2 \<le> PROTO_BUS_BUFFER_SIZE)
           (take (unat (m_numSlots_s s)) (m_clientSlots s))"

text \<open>A run: any sequence of calls of the public member functions, each on the memory
  and the object the previous call left.\<close>

datatype client_call =
  Client_addData ptr u32 u8 u8
| Client_getData u32 u8
| Client_setData u32 u8
| Client_inputData "u8 list" u8

fun client_do :: "memory \<times> SyncBusClient \<Rightarrow> client_call \<Rightarrow> memory \<times> SyncBusClient" where
  "client_do (h, c) (Client_addData data serverId slotId sz) =
     (h, snd (addData c data serverId slotId sz))"
| "client_do (h, c) (Client_getData serverId slot) = (h, fst (snd (getData c serverId slot)))"
| "client_do (h, c) (Client_setData serverId slot) = (h, fst (snd (setData h c serverId slot)))"
| "client_do (h, c) (Client_inputData data sz) = (fst (snd (inputData_c h c data sz)), c)"

datatype server_call =
  Server_addSlot ptr u8 u8
| Server_setId u32
| Server_inputData "u8 list" u8

fun server_do :: "memory \<times> SyncBusServer \<Rightarrow> server_call \<Rightarrow> memory \<times> SyncBusServer" where
  "server_do (h, s) (Server_addSlot data slotId sz) = (h, snd (addSlot s data slotId sz))"
| "server_do (h, s) (Server_setId serverId) = (h, setId s serverId)"
| "server_do (h, s) (Server_inputData data sz) =
     (case inputData_s h s data sz of (r, h1, s1, ev) \<Rightarrow> (h1, s1))"

text \<open>A frame as the send callback gets it: \<open>sz\<close> bytes, no fewer than header and
  checksum, no more than the transmit buffer holds, with a checksum that verifies.\<close>

definition frame_ok :: "u8 list \<Rightarrow> u8 \<Rightarrow> bool" where
  "frame_ok data sz \<longleftrightarrow>
     length data = unat sz \<and> unat HeaderSize + 2 \<le> unat sz
       \<and> unat sz \<le> PROTO_BUS_BUFFER_SIZE \<and> checkCRC16 data sz"

subsection \<open>An example configuration\<close>

text \<open>A configuration in the style of \<^verbatim>\<open>example_1.cpp\<close>, used to evaluate the
  operations on concrete inputs: a server with identifier \<^verbatim>\<open>0x12345678\<close> and a
  client, each with room for four slots and two registered, slot 1 of one byte and
  slot 2 of four bytes. The server's buffers are at addresses 100 and 104, the
  client's at 200 and 204; the memory holds at each address the low byte of the
  address.\<close>

definition kServerId :: u32 where
  "kServerId = 0x12345678"

definition ex_memory :: memory where
  "ex_memory = (\<lambda>a. of_nat a)"

definition g_client :: SyncBusClient where
  "g_client =
     \<lparr>numSlots_c = 4, m_numSlots_c = 2,
      m_serveSlots =
        [\<lparr>sd_data = 200, sd_serverId = kServerId, sd_slotId = 1, sd_size = 1\<rparr>,
         \<lparr>sd_data = 204, sd_serverId = kServerId, sd_slotId = 2, sd_size = 4\<rparr>,
         \<lparr>sd_data = 0, sd_serverId = 0, sd_slotId = 0, sd_size = 0\<rparr>,
         \<lparr>sd_data = 0, sd_serverId = 0, sd_slotId = 0, sd_size = 0\<rparr>],
      m_sendData_cb_c = True, m_dataChanged_cb_c = True,
      m_buffer_c = replicate 64 0\<rparr>"

definition g_server :: SyncBusServer where
  "g_server =
     \<lparr>numSlots_s = 4, m_serverId = kServerId, m_numSlots_s = 2,
      m_clientSlots =
        [\<lparr>cs_data = 100, cs_slotId = 1, cs_size = 1\<rparr>,
         \<lparr>cs_data = 104, cs_slotId = 2, cs_size = 4\<rparr>,
         \<lparr>cs_data = 0, cs_slotId = 0, cs_size = 0\<rparr>,
         \<lparr>cs_data = 0, cs_slotId = 0, cs_size = 0\<rparr>],
      m_sendData_cb_s = True, m_dataChanged_cb_s = True,
      m_buffer_s = replicate 64 0\<rparr>"

text \<open>Frames with a valid checksum, for server \<^verbatim>\<open>0x12345678\<close>: requests and
  responses without payload for slot 2 and for the unregistered slot 9; a \<^verbatim>\<open>SetReq\<close>
  and a \<^verbatim>\<open>GetResp\<close> for slot 2 with a payload of two bytes, which is not the size of
  slot 2; a \<^verbatim>\<open>SetReq\<close> for slot 2 with the payload 1, 2, 3, 4; the \<^verbatim>\<open>GetResp\<close> for
  slot 2 with the content of the server's buffer (104 to 107); the \<^verbatim>\<open>SetReq\<close> for
  slot 2 with the content of the client's buffer (204 to 207). Then a \<^verbatim>\<open>GetReq\<close> for
  server 1, and a frame with a wrong checksum.\<close>

definition frame_GetReq_2 :: "u8 list" where
  "frame_GetReq_2 = [0x78, 0x56, 0x34, 0x12, 2, 0, 0xED, 0x3A]"

definition frame_GetReq_9 :: "u8 list" where
  "frame_GetReq_9 = [0x78, 0x56, 0x34, 0x12, 9, 0, 0xEA, 0x0A]"

definition frame_SetReq_9 :: "u8 list" where
  "frame_SetReq_9 = [0x78, 0x56, 0x34, 0x12, 9, 1, 0x2B, 0xCA]"

definition frame_GetResp_9 :: "u8 list" where
  "frame_GetResp_9 = [0x78, 0x56, 0x34, 0x12, 9, 2, 0x6B, 0xCB]"

definition frame_SetResp_2 :: "u8 list" where
  "frame_SetResp_2 = [0x78, 0x56, 0x34, 0x12, 2, 3, 0xAD, 0x3B]"

definition frame_SetReq_2_short :: "u8 list" where
  "frame_SetReq_2_short = [0x78, 0x56, 0x34, 0x12, 2, 1, 0xAA, 0xBB, 0xA2, 0x50]"

definition frame_GetResp_2_short :: "u8 list" where
  "frame_GetResp_2_short = [0x78, 0x56, 0x34, 0x12, 2, 2, 0xAA, 0xBB, 0x52, 0x50]"

definition frame_SetReq_2 :: "u8 list" where
  "frame_SetReq_2 = [0x78, 0x56, 0x34, 0x12, 2, 1, 1, 2, 3, 4, 0x89, 0xAE]"

definition frame_GetResp_2 :: "u8 list" where
  "frame_GetResp_2 = [0x78, 0x56, 0x34, 0x12, 2, 2, 104, 105, 106, 107, 0xCF, 0x92]"

definition frame_SetReq_2_mirror :: "u8 list" where
  "frame_SetReq_2_mirror = [0x78, 0x56, 0x34, 0x12, 2, 1, 204, 205, 206, 207, 0x92, 0x3A]"

definition frame_foreign :: "u8 list" where
  "frame_foreign = [1, 0, 0, 0, 2, 0, 0x00, 0xAA]"

definition frame_bad_crc :: "u8 list" where
  "frame_bad_crc = [0x78, 0x56, 0x34, 0x12, 2, 0, 0, 0]"

text \<open>Three variants of the example in which a slot id is registered twice: a server with
  slot 2 at indices 0 and 1 (buffers at 100 and 104, four bytes each); a server with
  slot 2 at indices 0 and 1 with four bytes and with one byte; a client with two
  bindings for slot 2 of the same server (buffers at 200 and 204). And a \<^verbatim>\<open>SetReq\<close>
  for slot 2 of server 1, with a payload of two bytes.\<close>

definition g_server_twice :: SyncBusServer where
  "g_server_twice =
     g_server\<lparr>m_clientSlots :=
        [\<lparr>cs_data = 100, cs_slotId = 2, cs_size = 4\<rparr>,
         \<lparr>cs_data = 104, cs_slotId = 2, cs_size = 4\<rparr>,
         \<lparr>cs_data = 0, cs_slotId = 0, cs_size = 0\<rparr>,
         \<lparr>cs_data = 0, cs_slotId = 0, cs_size = 0\<rparr>]\<rparr>"

definition g_server_resized :: SyncBusServer where
  "g_server_resized =
     g_server\<lparr>m_clientSlots :=
        [\<lparr>cs_data = 100, cs_slotId = 2, cs_size = 4\<rparr>,
         \<lparr>cs_data = 104, cs_slotId = 2, cs_size = 1\<rparr>,
         \<lparr>cs_data = 0, cs_slotId = 0, cs_size = 0\<rparr>,
         \<lparr>cs_data = 0, cs_slotId = 0, cs_size = 0\<rparr>]\<rparr>"

definition g_client_twice :: SyncBusClient where
  "g_client_twice =
     g_client\<lparr>m_serveSlots :=
        [\<lparr>sd_data = 200, sd_serverId = kServerId, sd_slotId = 2, sd_size = 4\<rparr>,
         \<lparr>sd_data = 204, sd_serverId = kServerId, sd_slotId = 2, sd_size = 4\<rparr>,
         \<lparr>sd_data = 0, sd_serverId = 0, sd_slotId = 0, sd_size = 0\<rparr>,
         \<lparr>sd_data = 0, sd_serverId = 0, sd_slotId = 0, sd_size = 0\<rparr>]\<rparr>"

definition frame_SetReq_foreign_short :: "u8 list" where
  "frame_SetReq_foreign_short = [1, 0, 0, 0, 2, 1, 0xAA, 0xBB, 0xEF, 0x6C]"

section \<open>Lemmas\<close>

subsection \<open>Words and the checksum\<close>

lemma unat_inc_less: "i < (n::u8) \<Longrightarrow> unat (i + 1) = Suc (unat i)"
  by unat_arith

lemma crc16_loop_fold:
  "crc16_loop buff len pos crc =
     fold (\<lambda>b c. crc16_byte c b) (map ((!) buff) [unat pos..<unat len]) crc"
proof (induction buff len pos crc rule: crc16_loop.induct)
  case (1 buff len pos crc)
  show ?case
  proof (cases "pos < len")
    case True
    then have lt: "unat pos < unat len"
      by (simp add: word_less_nat_alt)
    have "crc16_loop buff len pos crc
            = crc16_loop buff len (pos + 1) (crc16_byte crc (buff ! unat pos))"
      using True by (subst crc16_loop.simps) simp
    also have "\<dots> = fold (\<lambda>b c. crc16_byte c b)
                       (map ((!) buff) [Suc (unat pos)..<unat len])
                       (crc16_byte crc (buff ! unat pos))"
      using "1.IH" [OF True] unat_inc_less [OF True] by simp
    finally show ?thesis
      using lt by (simp add: upt_conv_Cons)
  next
    case False
    then have "unat len \<le> unat pos"
      by (simp add: word_less_nat_alt)
    then show ?thesis
      using False by (subst crc16_loop.simps) simp
  qed
qed

lemma crc16_loop_cong:
  assumes "\<And>i. i < unat len \<Longrightarrow> a ! i = b ! i"
  shows "crc16_loop a len 0 crc = crc16_loop b len 0 crc"
proof -
  have eq: "map ((!) a) [0..<unat len] = map ((!) b) [0..<unat len]"
    using assms by simp
  have "crc16_loop a len 0 crc = fold (\<lambda>x c. crc16_byte c x) (map ((!) a) [0..<unat len]) crc"
    by (simp add: crc16_loop_fold)
  moreover
  have "crc16_loop b len 0 crc = fold (\<lambda>x c. crc16_byte c x) (map ((!) b) [0..<unat len]) crc"
    by (simp add: crc16_loop_fold)
  ultimately show ?thesis by (simp only: eq)
qed

lemma lo_byte: "(ucast (c AND 0xFF) :: u8) = ucast (c::u16)"
proof -
  have m: "(0xFF::u16) = mask 8" by (simp add: mask_eq_exp_minus_1)
  show ?thesis unfolding m by (rule bit_word_eqI) (simp add: bit_simps)
qed

lemma hi_byte: "(ucast (drop_bit 8 c AND 0xFF) :: u8) = ucast (drop_bit 8 (c::u16))"
proof -
  have m: "(0xFF::u16) = mask 8" by (simp add: mask_eq_exp_minus_1)
  show ?thesis unfolding m by (rule bit_word_eqI) (simp add: bit_simps)
qed

lemma lohi:
  fixes c d :: u16
  assumes lo: "(ucast c :: u8) = ucast d" and hi: "(ucast (drop_bit 8 c) :: u8) = ucast (drop_bit 8 d)"
  shows "c = d"
proof (rule bit_word_eqI)
  fix n assume n: "n < LENGTH(16)"
  have a: "bit (ucast c :: u8) k = bit (ucast d :: u8) k" for k using lo by simp
  have b: "bit (ucast (drop_bit 8 c) :: u8) k = bit (ucast (drop_bit 8 d) :: u8) k" for k using hi by simp
  show "bit c n = bit d n"
  proof (cases "n < 8")
    case True
    with a [of n] show ?thesis by (simp add: bit_simps)
  next
    case False
    with n have "n - 8 < 8" by simp
    with False b [of "n - 8"] show ?thesis by (simp add: bit_simps)
  qed
qed

lemma shift_alt: "crc16_shift a = (if odd a then drop_bit 1 a XOR 0xA001 else drop_bit 1 a)"
  by (auto simp add: crc16_shift_def Let_def and_one_eq even_iff_mod_2_eq_zero)

lemma bit15: "bit (crc16_shift a) 15 = odd a"
  by (auto simp add: shift_alt bit_simps dest: bit_imp_le_length)

lemma crc16_shift_inj:
  assumes "crc16_shift a = crc16_shift b" shows "a = b"
proof -
  have o: "odd a = odd b" using assms bit15 [of a] bit15 [of b] by simp
  have d: "drop_bit 1 a = drop_bit 1 b"
  proof (cases "odd a")
    case True
    with o assms have "drop_bit 1 a XOR 0xA001 = drop_bit 1 b XOR 0xA001"
      by (simp add: shift_alt)
    then have "(drop_bit 1 a XOR 0xA001) XOR 0xA001 = (drop_bit 1 b XOR 0xA001) XOR 0xA001"
      by simp
    then show ?thesis by (simp add: xor.assoc)
  next
    case False
    with o assms show ?thesis by (simp add: shift_alt)
  qed
  show ?thesis
  proof (rule bit_word_eqI)
    fix n assume "n < LENGTH(16)"
    show "bit a n = bit b n"
    proof (cases n)
      case 0 then show ?thesis using o by (simp add: bit_0)
    next
      case (Suc m)
      have "bit (drop_bit 1 a) m = bit (drop_bit 1 b) m" using d by simp
      then show ?thesis using Suc by (simp add: bit_simps)
    qed
  qed
qed

lemma crc16_shift_pow_inj: "(crc16_shift ^^ n) a = (crc16_shift ^^ n) b \<Longrightarrow> a = b"
  by (induction n) (auto dest: crc16_shift_inj)

lemma xor_cancel_left: "(a::'a::len word) XOR x = a XOR y \<Longrightarrow> x = y"
proof -
  assume "a XOR x = a XOR y"
  then have "a XOR (a XOR x) = a XOR (a XOR y)" by simp
  then show ?thesis by (simp add: xor.assoc [symmetric])
qed

lemma xor_cancel_right: "(a::'a::len word) XOR x = b XOR x \<Longrightarrow> a = b"
  using xor_cancel_left [of x a b] by (simp add: xor.commute)

lemma crc16_byte_inj_crc: "crc16_byte a x = crc16_byte b x \<Longrightarrow> a = b"
  unfolding crc16_byte_def by (blast dest: crc16_shift_pow_inj xor_cancel_right)

lemma ucast_u8_u16_inj: "(ucast (x::u8) :: u16) = ucast y \<Longrightarrow> x = y"
proof -
  assume e: "(ucast x :: u16) = ucast y"
  show ?thesis
  proof (rule bit_word_eqI)
    fix n assume "n < LENGTH(8)"
    moreover have "bit (ucast x :: u16) n = bit (ucast y :: u16) n" using e by simp
    ultimately show "bit x n = bit y n" by (simp add: bit_simps)
  qed
qed

lemma crc16_byte_inj_byte: "crc16_byte a x = crc16_byte a y \<Longrightarrow> x = y"
  unfolding crc16_byte_def
  by (blast dest: crc16_shift_pow_inj xor_cancel_left ucast_u8_u16_inj)

lemma crc16_fold_inj:
  "fold (\<lambda>b c. crc16_byte c b) bs a = fold (\<lambda>b c. crc16_byte c b) bs a' \<Longrightarrow> a = a'"
  by (induction bs arbitrary: a a') (auto dest: crc16_byte_inj_crc)

lemma crc16_fold_one_byte:
  assumes "x \<noteq> y"
  shows "fold (\<lambda>b c. crc16_byte c b) (pre @ x # post) a
           \<noteq> fold (\<lambda>b c. crc16_byte c b) (pre @ y # post) a"
proof
  assume "fold (\<lambda>b c. crc16_byte c b) (pre @ x # post) a
            = fold (\<lambda>b c. crc16_byte c b) (pre @ y # post) a"
  then have "crc16_byte (fold (\<lambda>b c. crc16_byte c b) pre a) x
               = crc16_byte (fold (\<lambda>b c. crc16_byte c b) pre a) y"
    by (auto dest: crc16_fold_inj)
  with assms show False by (auto dest: crc16_byte_inj_byte)
qed

lemma flip_bit_neq: "k < 8 \<Longrightarrow> flip_bit k (b::u8) \<noteq> b"
proof
  assume k: "k < 8" and e: "flip_bit k b = b"
  have "bit (flip_bit k b) k = (\<not> bit b k)"
    using k by (simp add: bit_simps)
  with e show False by simp
qed

lemma le32_bytes:
  fixes v :: u32
  shows "ucast (ucast (v AND 0xFF) :: u8) OR push_bit 8 (ucast (ucast (drop_bit 8 v AND 0xFF) :: u8))
       OR push_bit 16 (ucast (ucast (drop_bit 16 v AND 0xFF) :: u8))
       OR push_bit 24 (ucast (ucast (drop_bit 24 v AND 0xFF) :: u8)) = v" (is "?L = v")
proof (rule bit_word_eqI)
  fix n assume "n < LENGTH(32)"
  then have n: "n < 32" by simp
  have m: "(0xFF::u32) = mask 8" by (simp add: mask_eq_exp_minus_1)
  consider "n < 8" | "8 \<le> n" "n < 16" | "16 \<le> n" "n < 24" | "24 \<le> n" "n < 32"
    using n by linarith
  then show "bit ?L n = bit v n"
    unfolding m by cases (auto simp add: bit_simps)
qed

lemma crc_bytes_eq:
  fixes c d :: u16
  assumes "(ucast (c AND 0xFF) :: u8) = ucast (d AND 0xFF)"
    and "(ucast (drop_bit 8 c AND 0xFF) :: u8) = ucast (drop_bit 8 d AND 0xFF)"
  shows "c = d"
  using assms by (simp add: lo_byte hi_byte lohi)

lemma unat_add2:
  assumes "unat (len::u8) \<le> 253"
  shows "unat (len + 1) = unat len + 1 \<and> unat (len + 2) = unat len + 2"
proof -
  have "unat len + unat (1::u8) < 2 ^ LENGTH(8)" "unat len + unat (2::u8) < 2 ^ LENGTH(8)"
    using assms by simp_all
  then have "unat (len + 1) = unat len + unat (1::u8)" "unat (len + 2) = unat len + unat (2::u8)"
    by (simp_all only: unat_add_lem)
  then show ?thesis by simp
qed

lemma genCRC16_eq:
  "genCRC16 buff len =
     (buff[unat len := ucast (crc16_loop buff len 0 0xFFFF AND 0xFF),
           unat (len + 1) := ucast (drop_bit 8 (crc16_loop buff len 0 0xFFFF) AND 0xFF)],
      len + 2)"
  by (simp add: genCRC16_def Let_def add.assoc)

lemma length_genCRC16: "length (fst (genCRC16 buff len)) = length buff"
  by (simp add: genCRC16_eq)

lemma nth_genCRC16_body: "i < unat len \<Longrightarrow> unat len \<le> 253 \<Longrightarrow> fst (genCRC16 buff len) ! i = buff ! i"
  using unat_add2 [of len] by (simp add: genCRC16_eq)

lemma checkCRC16_eq:
  assumes "unat len \<le> 253"
  shows "checkCRC16 b (len + 2) \<longleftrightarrow>
           b ! unat len = ucast (crc16_loop b len 0 0xFFFF AND 0xFF)
         \<and> b ! (unat len + 1) = ucast (drop_bit 8 (crc16_loop b len 0 0xFFFF) AND 0xFF)"
proof -
  have a: "unat (len + 2) = unat len + 2" "unat (1 + len) = unat len + 1"
    using unat_add2 [OF assms] by (simp_all add: add.commute)
  have "\<not> len + 2 < 2"
    using a by (simp add: word_less_nat_alt)
  moreover have "len + 2 - 1 = 1 + len" by simp
  ultimately show ?thesis
    using a by (simp add: checkCRC16_def Let_def)
qed

lemma checkCRC16_genCRC16:
  assumes "unat len + 2 \<le> length buff" "unat len \<le> 253"
  shows "checkCRC16 (fst (genCRC16 buff len)) (len + 2)"
proof -
  let ?b = "fst (genCRC16 buff len)"
  have a: "unat (len + 1) = unat len + 1"
    using unat_add2 [OF assms(2)] by simp
  have "crc16_loop ?b len 0 0xFFFF = crc16_loop buff len 0 0xFFFF"
    by (rule crc16_loop_cong) (simp add: nth_genCRC16_body assms(2))
  then show ?thesis
    using assms a by (simp add: checkCRC16_eq) (simp add: genCRC16_eq)
qed

lemma upt_split: "i < n \<Longrightarrow> [0..<n] = [0..<i] @ i # [Suc i..<n]"
  using upt_add_eq_append [of 0 i "n - i"] by (simp add: upt_conv_Cons)

lemma map_nth_split:
  "i < n \<Longrightarrow> map ((!) b) [0..<n] = map ((!) b) [0..<i] @ b ! i # map ((!) b) [Suc i..<n]"
  by (simp add: upt_split [of i n])

lemma map_nth_update_split:
  assumes "i < n" "i < length b"
  shows "map ((!) (b[i := v])) [0..<n] = map ((!) b) [0..<i] @ v # map ((!) b) [Suc i..<n]"
proof -
  have "map ((!) (b[i := v])) [0..<i] = map ((!) b) [0..<i]"
    by simp
  moreover have "map ((!) (b[i := v])) [Suc i..<n] = map ((!) b) [Suc i..<n]"
    by simp
  ultimately show ?thesis
    using assms by (simp add: upt_split [of i n])
qed

lemma crc16_loop_update:
  assumes "i < unat len" "i < length b" "v \<noteq> b ! i"
  shows "crc16_loop (b[i := v]) len 0 crc \<noteq> crc16_loop b len 0 crc"
proof -
  have "crc16_loop (b[i := v]) len 0 crc
          = fold (\<lambda>x c. crc16_byte c x)
              (map ((!) b) [0..<i] @ v # map ((!) b) [Suc i..<unat len]) crc"
    using assms by (simp add: crc16_loop_fold map_nth_update_split)
  moreover have "crc16_loop b len 0 crc
          = fold (\<lambda>x c. crc16_byte c x)
              (map ((!) b) [0..<i] @ b ! i # map ((!) b) [Suc i..<unat len]) crc"
    using assms(1) map_nth_split [of i "unat len" b] by (simp add: crc16_loop_fold)
  ultimately show ?thesis
    using crc16_fold_one_byte [OF assms(3)] by simp
qed

lemma checkCRC16_detects_byte:
  assumes room: "unat len + 2 \<le> length buff" and len: "unat len \<le> 253"
    and i: "i < unat len + 2" and v: "v \<noteq> fst (genCRC16 buff len) ! i"
  shows "\<not> checkCRC16 ((fst (genCRC16 buff len))[i := v]) (len + 2)"
proof
  let ?b = "fst (genCRC16 buff len)"
  let ?c = "crc16_loop ?b len 0 0xFFFF"
  let ?c' = "crc16_loop (?b[i := v]) len 0 0xFFFF"
  assume chk: "checkCRC16 (?b[i := v]) (len + 2)"
  have lenb: "length ?b = length buff"
    by (rule length_genCRC16)
  have good: "?b ! unat len = ucast (?c AND 0xFF)"
             "?b ! (unat len + 1) = ucast (drop_bit 8 ?c AND 0xFF)"
    using checkCRC16_genCRC16 [OF room len] by (simp_all add: checkCRC16_eq [OF len])
  have bad: "?b[i := v] ! unat len = ucast (?c' AND 0xFF)"
            "?b[i := v] ! (unat len + 1) = ucast (drop_bit 8 ?c' AND 0xFF)"
    using chk by (simp_all add: checkCRC16_eq [OF len])
  consider "i < unat len" | "i = unat len" | "i = unat len + 1"
    using i by linarith
  then show False
  proof cases
    case 1
    then have "?c' \<noteq> ?c"
      using room lenb v by (intro crc16_loop_update) simp_all
    moreover have "?c' = ?c"
      using 1 good bad by (intro crc_bytes_eq) simp_all
    ultimately show False by simp
  next
    case 2
    have "?c' = ?c"
      using 2 by (intro crc16_loop_cong) simp
    then show False
      using 2 good(1) bad(1) v room lenb by simp
  next
    case 3
    have "?c' = ?c"
      using 3 by (intro crc16_loop_cong) simp
    then show False
      using 3 good(2) bad(2) v room lenb by simp
  qed
qed

subsection \<open>The scans\<close>

lemma getResp_loop_no_match:
  "(\<And>k. unat i \<le> k \<Longrightarrow> k < unat (m_numSlots_c c) \<Longrightarrow> \<not> binding_matches c serverId slotId k)
   \<Longrightarrow> getResp_loop h c data serverId slotId payloadLen i = (ok, h, [])"
proof (induction h c data serverId slotId payloadLen i rule: getResp_loop.induct)
  case (1 h c data serverId slotId payloadLen i)
  show ?case
  proof (cases "i < m_numSlots_c c")
    case True
    then have lt: "unat i < unat (m_numSlots_c c)"
      by (simp add: word_less_nat_alt)
    have nm: "\<not> binding_matches c serverId slotId (unat i)"
      using "1.prems" [of "unat i"] lt by simp
    then have nm': "\<not> (sd_serverId (m_serveSlots c ! unat i) = serverId
                      \<and> sd_slotId (m_serveSlots c ! unat i) = slotId)"
      by (simp add: binding_matches_def)
    have "getResp_loop h c data serverId slotId payloadLen (i + 1) = (ok, h, [])"
    proof (rule "1.IH" [OF True nm'])
      fix k assume "unat (i + 1) \<le> k" "k < unat (m_numSlots_c c)"
      then show "\<not> binding_matches c serverId slotId k"
        using "1.prems" [of k] unat_inc_less [OF True] by simp
    qed
    then show ?thesis
      using True nm' by (subst getResp_loop.simps) auto
  next
    case False
    then show ?thesis
      by (subst getResp_loop.simps) simp
  qed
qed

lemma getResp_loop_first:
  assumes "unat i \<le> j" "j < unat (m_numSlots_c c)" "binding_matches c serverId slotId j"
    and "\<And>k. unat i \<le> k \<Longrightarrow> k < j \<Longrightarrow> \<not> binding_matches c serverId slotId k"
  shows "getResp_loop h c data serverId slotId payloadLen i
           = getResp_apply h c data slotId payloadLen (of_nat j)"
  using assms
proof (induction h c data serverId slotId payloadLen i rule: getResp_loop.induct)
  case (1 h c data serverId slotId payloadLen i)
  have True: "i < m_numSlots_c c"
    using "1.prems"(1,2) by (simp add: word_less_nat_alt)
  show ?case
  proof (cases "binding_matches c serverId slotId (unat i)")
    case m: True
    then have "j = unat i"
      using "1.prems"(1) "1.prems"(4) [of "unat i"] by (cases "unat i < j") auto
    then have "of_nat j = i"
      by simp
    then show ?thesis
      using True m by (subst getResp_loop.simps) (simp add: binding_matches_def)
  next
    case nm: False
    then have nm': "\<not> (sd_serverId (m_serveSlots c ! unat i) = serverId
                      \<and> sd_slotId (m_serveSlots c ! unat i) = slotId)"
      by (simp add: binding_matches_def)
    have "j \<noteq> unat i"
      using nm "1.prems"(3) by auto
    then have le: "unat (i + 1) \<le> j"
      using "1.prems"(1) unat_inc_less [OF True] by simp
    have "getResp_loop h c data serverId slotId payloadLen (i + 1)
            = getResp_apply h c data slotId payloadLen (of_nat j)"
    proof (rule "1.IH" [OF True nm' le "1.prems"(2,3)])
      fix k assume "unat (i + 1) \<le> k" "k < j"
      then show "\<not> binding_matches c serverId slotId k"
        using "1.prems"(4) [of k] unat_inc_less [OF True] by simp
    qed
    then show ?thesis
      using True nm' by (subst getResp_loop.simps) auto
  qed
qed

lemma list_ex_upt: "list_ex P [0..<n] \<longleftrightarrow> (\<exists>k<n. P k)"
  by (auto simp add: list_ex_iff)

lemma getResp_loop_no_binding:
  "no_binding c serverId slotId
   \<Longrightarrow> getResp_loop h c data serverId slotId payloadLen 0 = (ok, h, [])"
  by (rule getResp_loop_no_match) (auto simp add: no_binding_def list_ex_upt)

lemma getResp_loop_first_binding:
  "first_binding c serverId slotId j
   \<Longrightarrow> getResp_loop h c data serverId slotId payloadLen 0
         = getResp_apply h c data slotId payloadLen (of_nat j)"
  by (rule getResp_loop_first) (auto simp add: first_binding_def list_ex_upt)

lemma getReq_loop_no_match:
  "(\<And>k. unat i \<le> k \<Longrightarrow> k < unat (m_numSlots_s s) \<Longrightarrow> \<not> slot_matches s slotId k)
   \<Longrightarrow> getReq_loop h s slotId i = (ok, s, [])"
proof (induction h s slotId i rule: getReq_loop.induct)
  case (1 h s slotId i)
  show ?case
  proof (cases "i < m_numSlots_s s")
    case True
    then have lt: "unat i < unat (m_numSlots_s s)"
      by (simp add: word_less_nat_alt)
    have nm: "\<not> slot_matches s slotId (unat i)"
      using "1.prems" [of "unat i"] lt by simp
    then have nm': "cs_slotId (m_clientSlots s ! unat i) \<noteq> slotId"
      by (simp add: slot_matches_def)
    have "getReq_loop h s slotId (i + 1) = (ok, s, [])"
    proof (rule "1.IH" [OF True nm'])
      fix k assume "unat (i + 1) \<le> k" "k < unat (m_numSlots_s s)"
      then show "\<not> slot_matches s slotId k"
        using "1.prems" [of k] unat_inc_less [OF True] by simp
    qed
    then show ?thesis
      using True nm' by (subst getReq_loop.simps) auto
  next
    case False
    then show ?thesis
      by (subst getReq_loop.simps) simp
  qed
qed

lemma getReq_loop_first:
  assumes "unat i \<le> j" "j < unat (m_numSlots_s s)" "slot_matches s slotId j"
    and "\<And>k. unat i \<le> k \<Longrightarrow> k < j \<Longrightarrow> \<not> slot_matches s slotId k"
  shows "getReq_loop h s slotId i = getReq_respond h s slotId (of_nat j)"
  using assms
proof (induction h s slotId i rule: getReq_loop.induct)
  case (1 h s slotId i)
  have True: "i < m_numSlots_s s"
    using "1.prems"(1,2) by (simp add: word_less_nat_alt)
  show ?case
  proof (cases "slot_matches s slotId (unat i)")
    case m: True
    then have "j = unat i"
      using "1.prems"(1) "1.prems"(4) [of "unat i"] by (cases "unat i < j") auto
    then have "of_nat j = i"
      by simp
    then show ?thesis
      using True m by (subst getReq_loop.simps) (simp add: slot_matches_def)
  next
    case nm: False
    then have nm': "cs_slotId (m_clientSlots s ! unat i) \<noteq> slotId"
      by (simp add: slot_matches_def)
    have "j \<noteq> unat i"
      using nm "1.prems"(3) by auto
    then have le: "unat (i + 1) \<le> j"
      using "1.prems"(1) unat_inc_less [OF True] by simp
    have "getReq_loop h s slotId (i + 1) = getReq_respond h s slotId (of_nat j)"
    proof (rule "1.IH" [OF True nm' le "1.prems"(2,3)])
      fix k assume "unat (i + 1) \<le> k" "k < j"
      then show "\<not> slot_matches s slotId k"
        using "1.prems"(4) [of k] unat_inc_less [OF True] by simp
    qed
    then show ?thesis
      using True nm' by (subst getReq_loop.simps) auto
  qed
qed

lemma getReq_loop_no_slot:
  "no_slot s slotId \<Longrightarrow> getReq_loop h s slotId 0 = (ok, s, [])"
  by (rule getReq_loop_no_match) (auto simp add: no_slot_def list_ex_upt)

lemma getReq_loop_first_slot:
  "first_slot s slotId j \<Longrightarrow> getReq_loop h s slotId 0 = getReq_respond h s slotId (of_nat j)"
  by (rule getReq_loop_first) (auto simp add: first_slot_def list_ex_upt)

lemma setReq_loop_no_match:
  "(\<And>k. unat i \<le> k \<Longrightarrow> k < unat (m_numSlots_s s) \<Longrightarrow> \<not> slot_matches s slotId k)
   \<Longrightarrow> setReq_loop h s data slotId payloadLen i = (ok, h, s, [])"
proof (induction h s data slotId payloadLen i rule: setReq_loop.induct)
  case (1 h s data slotId payloadLen i)
  show ?case
  proof (cases "i < m_numSlots_s s")
    case True
    then have lt: "unat i < unat (m_numSlots_s s)"
      by (simp add: word_less_nat_alt)
    have nm: "\<not> slot_matches s slotId (unat i)"
      using "1.prems" [of "unat i"] lt by simp
    then have nm': "cs_slotId (m_clientSlots s ! unat i) \<noteq> slotId"
      by (simp add: slot_matches_def)
    have "setReq_loop h s data slotId payloadLen (i + 1) = (ok, h, s, [])"
    proof (rule "1.IH" [OF True nm'])
      fix k assume "unat (i + 1) \<le> k" "k < unat (m_numSlots_s s)"
      then show "\<not> slot_matches s slotId k"
        using "1.prems" [of k] unat_inc_less [OF True] by simp
    qed
    then show ?thesis
      using True nm' by (subst setReq_loop.simps) auto
  next
    case False
    then show ?thesis
      by (subst setReq_loop.simps) simp
  qed
qed

lemma setReq_loop_first:
  assumes "unat i \<le> j" "j < unat (m_numSlots_s s)" "slot_matches s slotId j"
    and "\<And>k. unat i \<le> k \<Longrightarrow> k < j \<Longrightarrow> \<not> slot_matches s slotId k"
  shows "setReq_loop h s data slotId payloadLen i = setReq_apply h s data slotId payloadLen (of_nat j)"
  using assms
proof (induction h s data slotId payloadLen i rule: setReq_loop.induct)
  case (1 h s data slotId payloadLen i)
  have True: "i < m_numSlots_s s"
    using "1.prems"(1,2) by (simp add: word_less_nat_alt)
  show ?case
  proof (cases "slot_matches s slotId (unat i)")
    case m: True
    then have "j = unat i"
      using "1.prems"(1) "1.prems"(4) [of "unat i"] by (cases "unat i < j") auto
    then have "of_nat j = i"
      by simp
    then show ?thesis
      using True m by (subst setReq_loop.simps) (simp add: slot_matches_def)
  next
    case nm: False
    then have nm': "cs_slotId (m_clientSlots s ! unat i) \<noteq> slotId"
      by (simp add: slot_matches_def)
    have "j \<noteq> unat i"
      using nm "1.prems"(3) by auto
    then have le: "unat (i + 1) \<le> j"
      using "1.prems"(1) unat_inc_less [OF True] by simp
    have "setReq_loop h s data slotId payloadLen (i + 1) = setReq_apply h s data slotId payloadLen (of_nat j)"
    proof (rule "1.IH" [OF True nm' le "1.prems"(2,3)])
      fix k assume "unat (i + 1) \<le> k" "k < j"
      then show "\<not> slot_matches s slotId k"
        using "1.prems"(4) [of k] unat_inc_less [OF True] by simp
    qed
    then show ?thesis
      using True nm' by (subst setReq_loop.simps) auto
  qed
qed

lemma setReq_loop_no_slot:
  "no_slot s slotId \<Longrightarrow> setReq_loop h s data slotId payloadLen 0 = (ok, h, s, [])"
  by (rule setReq_loop_no_match) (auto simp add: no_slot_def list_ex_upt)

lemma setReq_loop_first_slot:
  "first_slot s slotId j \<Longrightarrow> setReq_loop h s data slotId payloadLen 0 = setReq_apply h s data slotId payloadLen (of_nat j)"
  by (rule setReq_loop_first) (auto simp add: first_slot_def list_ex_upt)

subsection \<open>Evaluation on the example and small facts\<close>

lemma crc16_byte_unroll:
  "crc16_byte crc b =
     crc16_shift (crc16_shift (crc16_shift (crc16_shift
       (crc16_shift (crc16_shift (crc16_shift (crc16_shift (crc XOR ucast b))))))))"
  by (simp add: crc16_byte_def eval_nat_numeral)

lemmas crc_eval = checkCRC16_def crc16_loop.simps crc16_byte_unroll crc16_shift_def Let_def

lemma frames_valid:
  "checkCRC16 frame_GetReq_2 8" "checkCRC16 frame_GetReq_9 8" "checkCRC16 frame_SetReq_9 8"
  "checkCRC16 frame_GetResp_9 8" "checkCRC16 frame_SetResp_2 8"
  "checkCRC16 frame_SetReq_2_short 10" "checkCRC16 frame_GetResp_2_short 10"
  "checkCRC16 frame_SetReq_2 12" "checkCRC16 frame_foreign 8" "\<not> checkCRC16 frame_bad_crc 8"
  by (simp_all add: crc_eval frame_GetReq_2_def frame_GetReq_9_def frame_SetReq_9_def
        frame_GetResp_9_def frame_SetResp_2_def frame_SetReq_2_short_def
        frame_GetResp_2_short_def frame_SetReq_2_def frame_foreign_def frame_bad_crc_def)

lemma frames_ids:
  "read_le32 frame_GetReq_2 FrameServerId = kServerId"
  "read_le32 frame_foreign FrameServerId = 1"
  by (simp_all add: read_le32_def FrameServerId_def kServerId_def frame_GetReq_2_def frame_foreign_def)

lemma size_ok: "unat HeaderSize + 2 \<le> unat sz \<Longrightarrow> \<not> sz < HeaderSize + 2"
  by (simp add: HeaderSize_def word_less_nat_alt)

lemma unat_payloadLen:
  assumes "unat HeaderSize + 2 \<le> unat (sz::u8)"
  shows "unat (sz - HeaderSize - 2) = unat sz - unat HeaderSize - 2"
proof -
  have "sz - HeaderSize - 2 = sz - 8"
    by (simp add: HeaderSize_def)
  moreover have "(8::u8) \<le> sz"
    using assms by (simp add: HeaderSize_def word_le_nat_alt)
  then have "unat (sz - 8) = unat sz - unat (8::u8)"
    by (rule unat_sub)
  ultimately show ?thesis
    by (simp add: HeaderSize_def)
qed

lemma unat_of_nat_u8: "j < unat (n::u8) \<Longrightarrow> unat (of_nat j :: u8) = j"
proof -
  assume "j < unat n"
  moreover have "unat n < 2 ^ LENGTH(8)"
    by (rule unsigned_less)
  ultimately have "j < 2 ^ LENGTH(8)"
    by (rule less_trans)
  then show ?thesis
    by (simp add: unat_of_nat)
qed

lemmas ex_defs = g_client_def g_server_def kServerId_def frame_GetReq_2_def frame_GetReq_9_def
  frame_SetReq_9_def frame_GetResp_9_def frame_SetResp_2_def frame_SetReq_2_short_def
  frame_GetResp_2_short_def frame_SetReq_2_def frame_foreign_def frame_bad_crc_def

lemmas layout_defs = FrameServerId_def FrameSlotId_def FrameFunction_def FrameData_def
  HeaderSize_def GetReq_def SetReq_def GetResp_def SetResp_def PROTO_BUS_BUFFER_SIZE_def
  nullptr_def

lemmas table_defs = binding_matches_def slot_matches_def first_binding_def first_slot_def
  no_binding_def no_slot_def

lemma upt_0_2: "[0..<2] = [0, 1]"
  by (simp add: numeral_2_eq_2)

subsection \<open>The frames the code builds\<close>

lemma length_write_le32: "length (write_le32 buf dst v) = length buf"
  by (simp add: write_le32_def)

lemma length_memcpy_to_buf: "length (memcpy_to_buf buf off bs) = length buf"
  by (induction bs arbitrary: buf off) simp_all

lemma nth_memcpy_to_buf:
  "off + length bs \<le> length buf \<Longrightarrow>
   memcpy_to_buf buf off bs ! i
     = (if off \<le> i \<and> i < off + length bs then bs ! (i - off) else buf ! i)"
proof (induction bs arbitrary: buf off)
  case Nil
  then show ?case by auto
next
  case (Cons b bs)
  have "Suc off + length bs \<le> length (buf[off := b])"
    using Cons.prems by simp
  from Cons.IH [OF this] show ?case
    using Cons.prems by (auto simp add: nth_Cons' nth_list_update)
qed

lemma unat_ucast_u8_u16: "unat (ucast (x::u8) :: u16) = unat x"
proof -
  have "unat x < 2 ^ LENGTH(8)"
    by (rule unsigned_less)
  then have "unat x < 2 ^ 16"
    by simp
  then show ?thesis
    by (simp add: unsigned_ucast_eq take_bit_nat_eq_self)
qed

lemma unat_totalNoCrc:
  "unat ((ucast HeaderSize :: u16) + ucast (payload::u8)) = unat HeaderSize + unat payload"
proof -
  have "unat payload < 2 ^ LENGTH(8)"
    by (rule unsigned_less)
  then have "unat (ucast HeaderSize :: u16) + unat (ucast payload :: u16) < 2 ^ LENGTH(16)"
    by (simp add: unat_ucast_u8_u16 HeaderSize_def)
  then have "unat ((ucast HeaderSize :: u16) + ucast payload)
               = unat (ucast HeaderSize :: u16) + unat (ucast payload :: u16)"
    by (simp only: unat_add_lem)
  then show ?thesis
    by (simp add: unat_ucast_u8_u16)
qed

lemma unat_ucast_u16_u8: "unat (t::u16) \<le> 255 \<Longrightarrow> unat (ucast t :: u8) = unat t"
  by (simp add: unsigned_ucast_eq take_bit_nat_eq_self)

lemma first_or_none_slot: "no_slot s slotId \<or> (\<exists>j. first_slot s slotId j)"
proof (cases "no_slot s slotId")
  case True
  then show ?thesis by simp
next
  case False
  then obtain k where k: "k < unat (m_numSlots_s s)" "slot_matches s slotId k"
    by (auto simp add: no_slot_def list_ex_upt)
  from ex_least_nat_le [of "slot_matches s slotId", OF k(2)]
  obtain j where "j \<le> k" "\<forall>i<j. \<not> slot_matches s slotId i" "slot_matches s slotId j"
    by blast
  with k(1) have "first_slot s slotId j"
    by (auto simp add: first_slot_def list_ex_upt)
  then show ?thesis by blast
qed

lemma first_or_none_binding:
  "no_binding c serverId slotId \<or> (\<exists>j. first_binding c serverId slotId j)"
proof (cases "no_binding c serverId slotId")
  case True
  then show ?thesis by simp
next
  case False
  then obtain k where k: "k < unat (m_numSlots_c c)" "binding_matches c serverId slotId k"
    by (auto simp add: no_binding_def list_ex_upt)
  from ex_least_nat_le [of "binding_matches c serverId slotId", OF k(2)]
  obtain j where "j \<le> k" "\<forall>i<j. \<not> binding_matches c serverId slotId i"
      "binding_matches c serverId slotId j"
    by blast
  with k(1) have "first_binding c serverId slotId j"
    by (auto simp add: first_binding_def list_ex_upt)
  then show ?thesis by blast
qed

lemma checkCRC16_take:
  assumes "unat len \<le> 253"
  shows "checkCRC16 (take (unat len + 2) b) (len + 2) = checkCRC16 b (len + 2)"
proof -
  have "crc16_loop (take (unat len + 2) b) len 0 0xFFFF = crc16_loop b len 0 0xFFFF"
    by (rule crc16_loop_cong) simp
  then show ?thesis
    by (simp add: checkCRC16_eq [OF assms])
qed

lemma header_nth:
  fixes sid :: u32 and k fn :: u8
  assumes "length buf = PROTO_BUS_BUFFER_SIZE"
  defines "b3 \<equiv> (write_le32 buf FrameServerId sid)[FrameSlotId := k, FrameFunction := fn]"
  shows "length b3 = PROTO_BUS_BUFFER_SIZE"
    and "b3 ! 0 = ucast (sid AND 0xFF)"
    and "b3 ! Suc 0 = ucast (drop_bit 8 sid AND 0xFF)"
    and "b3 ! 2 = ucast (drop_bit 16 sid AND 0xFF)"
    and "b3 ! 3 = ucast (drop_bit 24 sid AND 0xFF)"
    and "b3 ! 4 = k" and "b3 ! 5 = fn"
  using assms(1)
  by (simp_all add: b3_def write_le32_def FrameServerId_def FrameSlotId_def FrameFunction_def
        PROTO_BUS_BUFFER_SIZE_def numeral_2_eq_2 numeral_3_eq_3)

lemma built_frame:
  fixes sid :: u32 and k fn :: u8 and pl :: "u8 list"
  assumes buf: "length buf = PROTO_BUS_BUFFER_SIZE"
    and pl: "length pl + 8 \<le> PROTO_BUS_BUFFER_SIZE"
    and len: "unat (len::u8) = 6 + length pl"
  defines "b4 \<equiv> memcpy_to_buf
                   ((write_le32 buf FrameServerId sid)[FrameSlotId := k, FrameFunction := fn])
                   FrameData pl"
  defines "frame \<equiv> take (unat (len + 2)) (fst (genCRC16 b4 len))"
  shows "unat (len + 2) = length pl + 8"
    and "length (fst (genCRC16 b4 len)) = PROTO_BUS_BUFFER_SIZE"
    and "frame_ok frame (len + 2)"
    and "read_le32 frame FrameServerId = sid"
    and "frame ! FrameSlotId = k"
    and "frame ! FrameFunction = fn"
    and "take (length pl) (drop FrameData frame) = pl"
proof -
  let ?b3 = "(write_le32 buf FrameServerId sid)[FrameSlotId := k, FrameFunction := fn]"
  let ?b5 = "fst (genCRC16 b4 len)"
  note h = header_nth [OF buf, of sid k fn]
  have small: "unat len \<le> 253"
    using pl len by (simp add: PROTO_BUS_BUFFER_SIZE_def)
  show n: "unat (len + 2) = length pl + 8"
    using unat_add2 [OF small] len by simp
  have l4: "length b4 = PROTO_BUS_BUFFER_SIZE"
    by (simp add: b4_def length_memcpy_to_buf length_write_le32 buf)
  show l5: "length ?b5 = PROTO_BUS_BUFFER_SIZE"
    by (simp add: length_genCRC16 l4)
  have room: "FrameData + length pl \<le> length ?b3"
    using pl by (simp add: length_write_le32 buf FrameData_def)
  have b4_nth: "b4 ! i = (if 6 \<le> i \<and> i < 6 + length pl then pl ! (i - 6) else ?b3 ! i)" for i
    using nth_memcpy_to_buf [OF room, of i] by (simp add: b4_def FrameData_def)
  have b5_nth: "?b5 ! i = b4 ! i" if "i < 6 + length pl" for i
    using that nth_genCRC16_body [of i len b4] small len by simp
  have frame_nth: "frame ! i = b4 ! i" if "i < 6 + length pl" for i
    using that n b5_nth [OF that] by (simp add: frame_def)
  have lf: "length frame = length pl + 8"
    using n l5 pl by (simp add: frame_def)
  have "checkCRC16 ?b5 (len + 2)"
    using l4 pl len small by (intro checkCRC16_genCRC16) (simp_all add: PROTO_BUS_BUFFER_SIZE_def)
  then have "checkCRC16 frame (len + 2)"
    using checkCRC16_take [OF small, of ?b5] unat_add2 [OF small] by (simp add: frame_def)
  then show "frame_ok frame (len + 2)"
    using lf n pl by (simp add: frame_ok_def HeaderSize_def)
  have "frame ! 0 = ucast (sid AND 0xFF)" "frame ! 1 = ucast (drop_bit 8 sid AND 0xFF)"
    "frame ! 2 = ucast (drop_bit 16 sid AND 0xFF)" "frame ! 3 = ucast (drop_bit 24 sid AND 0xFF)"
    by (simp_all add: frame_nth b4_nth h)
  then show "read_le32 frame FrameServerId = sid"
    by (simp add: read_le32_def FrameServerId_def le32_bytes numeral_2_eq_2 numeral_3_eq_3)
  have f45: "frame ! 4 = k" "frame ! 5 = fn"
    by (simp_all add: frame_nth b4_nth h)
  show "frame ! FrameSlotId = k"
    using f45 by (simp add: FrameSlotId_def)
  show "frame ! FrameFunction = fn"
    using f45 by (simp add: FrameFunction_def)
  show "take (length pl) (drop FrameData frame) = pl"
  proof (rule nth_equalityI)
    show "length (take (length pl) (drop FrameData frame)) = length pl"
      using lf by (simp add: FrameData_def)
  next
    fix i assume "i < length (take (length pl) (drop FrameData frame))"
    then have i: "i < length pl"
      by simp
    then have "6 + i < 6 + length pl"
      by simp
    from frame_nth [OF this] i lf show "take (length pl) (drop FrameData frame) ! i = pl ! i"
      by (simp add: FrameData_def b4_nth)
  qed
qed

lemma length_load: "length (load h p n) = n"
  by (simp add: load_def)

lemma unat_len_u8:
  assumes "unat HeaderSize + unat (payload::u8) + 2 \<le> PROTO_BUS_BUFFER_SIZE"
  shows "unat (ucast ((ucast HeaderSize :: u16) + ucast payload) :: u8) = 6 + unat payload"
proof -
  have "unat ((ucast HeaderSize :: u16) + ucast payload) \<le> 255"
    using assms by (simp add: unat_totalNoCrc PROTO_BUS_BUFFER_SIZE_def)
  then have "unat (ucast ((ucast HeaderSize :: u16) + ucast payload) :: u8)
               = unat ((ucast HeaderSize :: u16) + ucast payload)"
    by (rule unat_ucast_u16_u8)
  also have "\<dots> = unat HeaderSize + unat payload"
    by (rule unat_totalNoCrc)
  finally show ?thesis
    by (simp add: HeaderSize_def)
qed

lemma built_frame_all:
  fixes sid :: u32 and k fn :: u8 and pl :: "u8 list"
  assumes "length buf = PROTO_BUS_BUFFER_SIZE"
    and "length pl + 8 \<le> PROTO_BUS_BUFFER_SIZE"
    and "unat (len::u8) = 6 + length pl"
  defines "b4 \<equiv> memcpy_to_buf
                   ((write_le32 buf FrameServerId sid)[FrameSlotId := k, FrameFunction := fn])
                   FrameData pl"
  defines "frame \<equiv> take (unat (len + 2)) (fst (genCRC16 b4 len))"
  shows "unat (len + 2) = length pl + 8
       \<and> length (fst (genCRC16 b4 len)) = PROTO_BUS_BUFFER_SIZE
       \<and> frame_ok frame (len + 2)
       \<and> read_le32 frame FrameServerId = sid
       \<and> frame ! FrameSlotId = k
       \<and> frame ! FrameFunction = fn
       \<and> take (length pl) (drop FrameData frame) = pl"
  unfolding b4_def frame_def by (intro conjI built_frame [OF assms(1-3)])

lemma getData_eq:
  fixes c :: SyncBusClient and serverId :: u32 and slot :: u8
  assumes "slot < m_numSlots_c c" "sd_data (m_serveSlots c ! unat slot) \<noteq> nullptr"
  defines "b \<equiv> fst (genCRC16 ((write_le32 (m_buffer_c c) FrameServerId serverId)
                      [FrameSlotId := sd_slotId (m_serveSlots c ! unat slot),
                       FrameFunction := GetReq]) HeaderSize)"
  shows "getData c serverId slot
           = (ok, c\<lparr>m_buffer_c := b\<rparr>,
              call_sendData_cb (m_sendData_cb_c c) b (HeaderSize + 2))"
  using assms(1,2)
  by (simp add: getData_def Let_def b_def genCRC16_eq HeaderSize_def PROTO_BUS_BUFFER_SIZE_def)

lemma getData_cases:
  fixes c :: SyncBusClient and serverId :: u32 and slot :: u8
  defines "b \<equiv> fst (genCRC16 ((write_le32 (m_buffer_c c) FrameServerId serverId)
                      [FrameSlotId := sd_slotId (m_serveSlots c ! unat slot),
                       FrameFunction := GetReq]) HeaderSize)"
  shows "getData c serverId slot = (errOverflow, c, []) \<and> m_numSlots_c c \<le> slot
       \<or> getData c serverId slot = (errFault, c, []) \<and> slot < m_numSlots_c c
           \<and> sd_data (m_serveSlots c ! unat slot) = nullptr
       \<or> getData c serverId slot
             = (ok, c\<lparr>m_buffer_c := b\<rparr>,
                call_sendData_cb (m_sendData_cb_c c) b (HeaderSize + 2))
           \<and> slot < m_numSlots_c c \<and> sd_data (m_serveSlots c ! unat slot) \<noteq> nullptr"
proof (cases "slot < m_numSlots_c c \<and> sd_data (m_serveSlots c ! unat slot) \<noteq> nullptr")
  case True
  then show ?thesis
    using getData_eq [of slot c serverId] by (simp add: b_def)
next
  case False
  then show ?thesis
    by (auto simp add: getData_def)
qed

lemma payload_frame:
  fixes sid :: u32 and k fn payload :: u8 and h :: memory and p :: ptr
  assumes "length buf = PROTO_BUS_BUFFER_SIZE"
    and "unat HeaderSize + unat payload + 2 \<le> PROTO_BUS_BUFFER_SIZE"
  defines "len \<equiv> (ucast ((ucast HeaderSize :: u16) + ucast payload) :: u8)"
  defines "b4 \<equiv> memcpy_to_buf
                   ((write_le32 buf FrameServerId sid)[FrameSlotId := k, FrameFunction := fn])
                   FrameData (load h p (unat payload))"
  defines "frame \<equiv> take (unat (len + 2)) (fst (genCRC16 b4 len))"
  shows "unat (len + 2) = unat HeaderSize + unat payload + 2
       \<and> length (fst (genCRC16 b4 len)) = PROTO_BUS_BUFFER_SIZE
       \<and> frame_ok frame (len + 2)
       \<and> read_le32 frame FrameServerId = sid
       \<and> frame ! FrameSlotId = k
       \<and> frame ! FrameFunction = fn
       \<and> take (unat payload) (drop FrameData frame) = load h p (unat payload)"
proof -
  have a: "length (load h p (unat payload)) + 8 \<le> PROTO_BUS_BUFFER_SIZE"
    using assms(2) by (simp add: length_load HeaderSize_def)
  have b: "unat len = 6 + length (load h p (unat payload))"
    unfolding len_def using unat_len_u8 [OF assms(2)] by (simp add: length_load)
  note t = built_frame_all [OF assms(1) a b, of sid k fn, unfolded length_load]
  from t have first: "unat (len + 2) = unat HeaderSize + unat payload + 2"
    by (simp add: HeaderSize_def)
  from first t show ?thesis
    unfolding b4_def frame_def by blast
qed

lemma setData_cases:
  fixes c :: SyncBusClient and serverId :: u32 and slot :: u8 and h :: memory
  defines "payload \<equiv> sd_size (m_serveSlots c ! unat slot)"
  defines "len \<equiv> (ucast ((ucast HeaderSize :: u16) + ucast payload) :: u8)"
  defines "b \<equiv> fst (genCRC16
                   (memcpy_to_buf
                      ((write_le32 (m_buffer_c c) FrameServerId serverId)
                         [FrameSlotId := sd_slotId (m_serveSlots c ! unat slot),
                          FrameFunction := SetReq])
                      FrameData (load h (sd_data (m_serveSlots c ! unat slot)) (unat payload)))
                   len)"
  shows "setData h c serverId slot = (errOverflow, c, [])
           \<and> (m_numSlots_c c \<le> slot
                \<or> PROTO_BUS_BUFFER_SIZE < unat HeaderSize + unat payload + 2)
       \<or> setData h c serverId slot = (errFault, c, []) \<and> slot < m_numSlots_c c
           \<and> sd_data (m_serveSlots c ! unat slot) = nullptr
       \<or> setData h c serverId slot
             = (ok, c\<lparr>m_buffer_c := b\<rparr>, call_sendData_cb (m_sendData_cb_c c) b (len + 2))
           \<and> slot < m_numSlots_c c \<and> sd_data (m_serveSlots c ! unat slot) \<noteq> nullptr
           \<and> unat HeaderSize + unat payload + 2 \<le> PROTO_BUS_BUFFER_SIZE"
  unfolding b_def len_def payload_def
  by (auto simp add: setData_def Let_def genCRC16_eq unat_totalNoCrc)

lemma getReq_respond_cases:
  fixes s :: SyncBusServer and slotId i :: u8 and h :: memory
  defines "payload \<equiv> cs_size (m_clientSlots s ! unat i)"
  defines "len \<equiv> (ucast ((ucast HeaderSize :: u16) + ucast payload) :: u8)"
  defines "b \<equiv> fst (genCRC16
                   (memcpy_to_buf
                      ((write_le32 (m_buffer_s s) FrameServerId (m_serverId s))
                         [FrameSlotId := slotId, FrameFunction := GetResp])
                      FrameData (load h (cs_data (m_clientSlots s ! unat i)) (unat payload)))
                   len)"
  shows "getReq_respond h s slotId i = (errOverflow, s, [])
           \<and> PROTO_BUS_BUFFER_SIZE < unat HeaderSize + unat payload + 2
       \<or> getReq_respond h s slotId i
             = (ok, s\<lparr>m_buffer_s := b\<rparr>, call_sendData_cb (m_sendData_cb_s s) b (len + 2))
           \<and> unat HeaderSize + unat payload + 2 \<le> PROTO_BUS_BUFFER_SIZE"
  unfolding b_def len_def payload_def
  by (auto simp add: getReq_respond_def Let_def genCRC16_eq unat_totalNoCrc)

lemma setReq_apply_cases:
  fixes s :: SyncBusServer and slotId i payloadLen :: u8 and h :: memory and data :: "u8 list"
  defines "b \<equiv> fst (genCRC16 ((write_le32 (m_buffer_s s) FrameServerId (m_serverId s))
                      [FrameSlotId := slotId, FrameFunction := SetResp]) HeaderSize)"
  shows "setReq_apply h s data slotId payloadLen i = (errFault, h, s, [])
           \<and> payloadLen \<noteq> cs_size (m_clientSlots s ! unat i)
       \<or> setReq_apply h s data slotId payloadLen i
             = (ok,
                memcpy_to_mem h (cs_data (m_clientSlots s ! unat i))
                  (take (unat payloadLen) (drop FrameData data)),
                s\<lparr>m_buffer_s := b\<rparr>,
                call_dataChanged_cb (m_dataChanged_cb_s s) slotId
                  @ call_sendData_cb (m_sendData_cb_s s) b (HeaderSize + 2))
           \<and> payloadLen = cs_size (m_clientSlots s ! unat i)"
  unfolding b_def
  by (auto simp add: setReq_apply_def Let_def genCRC16_eq SyncBus_ENABLE_SET_ACK_def
        HeaderSize_def PROTO_BUS_BUFFER_SIZE_def)

lemma header_frame:
  fixes sid :: u32 and k fn :: u8
  assumes "length buf = PROTO_BUS_BUFFER_SIZE"
  defines "b \<equiv> fst (genCRC16 ((write_le32 buf FrameServerId sid)
                      [FrameSlotId := k, FrameFunction := fn]) HeaderSize)"
  defines "f \<equiv> take (unat (HeaderSize + 2)) b"
  shows "unat (HeaderSize + 2) = unat HeaderSize + 2 \<and> length b = PROTO_BUS_BUFFER_SIZE
       \<and> frame_ok f (HeaderSize + 2) \<and> read_le32 f FrameServerId = sid
       \<and> f ! FrameSlotId = k \<and> f ! FrameFunction = fn"
  using built_frame_all [OF assms(1), where pl = "[]" and len = HeaderSize and sid = sid
          and k = k and fn = fn]
  by (simp add: b_def f_def PROTO_BUS_BUFFER_SIZE_def HeaderSize_def)

lemma inputData_s_cases:
  fixes s :: SyncBusServer and h :: memory and data :: "u8 list" and sz :: u8
  shows "(\<exists>r. r \<noteq> errOverflow \<and> inputData_s h s data sz = (r, h, s, []))
       \<or> (\<exists>j. first_slot s (data ! FrameSlotId) j
              \<and> unat HeaderSize + 2 \<le> unat sz \<and> checkCRC16 data sz
              \<and> read_le32 data FrameServerId = m_serverId s
              \<and> data ! FrameFunction = GetReq
              \<and> inputData_s h s data sz
                  = (case getReq_respond h s (data ! FrameSlotId) (of_nat j) of
                       (r, s1, ev) \<Rightarrow> (r, h, s1, ev)))
       \<or> (\<exists>j. first_slot s (data ! FrameSlotId) j
              \<and> unat HeaderSize + 2 \<le> unat sz \<and> checkCRC16 data sz
              \<and> read_le32 data FrameServerId = m_serverId s
              \<and> data ! FrameFunction = SetReq
              \<and> inputData_s h s data sz
                  = setReq_apply h s data (data ! FrameSlotId) (sz - HeaderSize - 2) (of_nat j))"
proof -
  consider (short) "sz < HeaderSize + 2"
    | (crc) "\<not> sz < HeaderSize + 2" "\<not> checkCRC16 data sz"
    | (foreign) "\<not> sz < HeaderSize + 2" "checkCRC16 data sz"
        "read_le32 data FrameServerId \<noteq> m_serverId s"
    | (other) "\<not> sz < HeaderSize + 2" "checkCRC16 data sz"
        "read_le32 data FrameServerId = m_serverId s"
        "data ! FrameFunction \<noteq> GetReq" "data ! FrameFunction \<noteq> SetReq"
    | (get) "\<not> sz < HeaderSize + 2" "checkCRC16 data sz"
        "read_le32 data FrameServerId = m_serverId s" "data ! FrameFunction = GetReq"
    | (set) "\<not> sz < HeaderSize + 2" "checkCRC16 data sz"
        "read_le32 data FrameServerId = m_serverId s" "data ! FrameFunction = SetReq"
    by blast
  then show ?thesis
  proof cases
    case short
    then have "inputData_s h s data sz = (errFault, h, s, [])"
      by (simp add: inputData_s_def)
    then show ?thesis by simp
  next
    case crc
    then have "inputData_s h s data sz = (errCrc, h, s, [])"
      by (simp add: inputData_s_def)
    then show ?thesis by simp
  next
    case foreign
    then have "inputData_s h s data sz = (ok, h, s, [])"
      by (simp add: inputData_s_def Let_def)
    then show ?thesis by simp
  next
    case other
    then have "inputData_s h s data sz = (ok, h, s, [])"
      by (simp add: inputData_s_def Let_def)
    then show ?thesis by simp
  next
    case get
    then have sz: "unat HeaderSize + 2 \<le> unat sz"
      by (simp add: HeaderSize_def word_less_nat_alt)
    from first_or_none_slot [of s "data ! FrameSlotId"] show ?thesis
    proof
      assume "no_slot s (data ! FrameSlotId)"
      then have "inputData_s h s data sz = (ok, h, s, [])"
        using get by (simp add: inputData_s_def Let_def getReq_loop_no_slot)
      then show ?thesis by simp
    next
      assume "\<exists>j. first_slot s (data ! FrameSlotId) j"
      then obtain j where j: "first_slot s (data ! FrameSlotId) j" ..
      then have "inputData_s h s data sz
                  = (case getReq_respond h s (data ! FrameSlotId) (of_nat j) of
                       (r, s1, ev) \<Rightarrow> (r, h, s1, ev))"
        using get by (simp add: inputData_s_def Let_def getReq_loop_first_slot case_prod_unfold)
      with j sz get show ?thesis by blast
    qed
  next
    case set
    then have sz: "unat HeaderSize + 2 \<le> unat sz"
      by (simp add: HeaderSize_def word_less_nat_alt)
    have ne: "data ! FrameFunction \<noteq> GetReq"
      using set by (simp add: GetReq_def SetReq_def)
    from first_or_none_slot [of s "data ! FrameSlotId"] show ?thesis
    proof
      assume "no_slot s (data ! FrameSlotId)"
      then have "inputData_s h s data sz = (ok, h, s, [])"
        using set ne by (simp add: inputData_s_def Let_def setReq_loop_no_slot)
      then show ?thesis by simp
    next
      assume "\<exists>j. first_slot s (data ! FrameSlotId) j"
      then obtain j where j: "first_slot s (data ! FrameSlotId) j" ..
      then have "inputData_s h s data sz
                  = setReq_apply h s data (data ! FrameSlotId) (sz - HeaderSize - 2) (of_nat j)"
        using set ne by (simp add: inputData_s_def Let_def setReq_loop_first_slot)
      with j sz set show ?thesis by blast
    qed
  qed
qed

lemma inputData_c_cases:
  fixes c :: SyncBusClient and h :: memory and data :: "u8 list" and sz :: u8
  shows "(\<exists>r. r \<noteq> errOverflow \<and> inputData_c h c data sz = (r, h, []))
       \<or> (\<exists>j. first_binding c (read_le32 data FrameServerId) (data ! FrameSlotId) j
              \<and> unat HeaderSize + 2 \<le> unat sz \<and> checkCRC16 data sz
              \<and> data ! FrameFunction = GetResp
              \<and> inputData_c h c data sz
                  = getResp_apply h c data (data ! FrameSlotId) (sz - HeaderSize - 2) (of_nat j))"
proof -
  consider (short) "sz < HeaderSize + 2"
    | (crc) "\<not> sz < HeaderSize + 2" "\<not> checkCRC16 data sz"
    | (other) "\<not> sz < HeaderSize + 2" "checkCRC16 data sz" "data ! FrameFunction \<noteq> GetResp"
    | (resp) "\<not> sz < HeaderSize + 2" "checkCRC16 data sz" "data ! FrameFunction = GetResp"
    by blast
  then show ?thesis
  proof cases
    case short
    then have "inputData_c h c data sz = (errFault, h, [])"
      by (simp add: inputData_c_def)
    then show ?thesis by simp
  next
    case crc
    then have "inputData_c h c data sz = (errCrc, h, [])"
      by (simp add: inputData_c_def)
    then show ?thesis by simp
  next
    case other
    then have "inputData_c h c data sz = (ok, h, [])"
      by (simp add: inputData_c_def Let_def)
    then show ?thesis by simp
  next
    case resp
    then have sz: "unat HeaderSize + 2 \<le> unat sz"
      by (simp add: HeaderSize_def word_less_nat_alt)
    from first_or_none_binding [of c "read_le32 data FrameServerId" "data ! FrameSlotId"]
    show ?thesis
    proof
      assume "no_binding c (read_le32 data FrameServerId) (data ! FrameSlotId)"
      then have "inputData_c h c data sz = (ok, h, [])"
        using resp by (simp add: inputData_c_def Let_def getResp_loop_no_binding)
      then show ?thesis by simp
    next
      assume "\<exists>j. first_binding c (read_le32 data FrameServerId) (data ! FrameSlotId) j"
      then obtain j
        where j: "first_binding c (read_le32 data FrameServerId) (data ! FrameSlotId) j" ..
      then have "inputData_c h c data sz
                  = getResp_apply h c data (data ! FrameSlotId) (sz - HeaderSize - 2) (of_nat j)"
        using resp by (simp add: inputData_c_def Let_def getResp_loop_first_binding)
      with j sz resp show ?thesis by blast
    qed
  qed
qed

lemma inputData_c_no_send: "Send f n \<notin> set (snd (snd (inputData_c h c data sz)))"
  using inputData_c_cases [of h c data sz]
  by (auto simp add: getResp_apply_def call_dataChanged_cb_def split: if_splits)

lemma getData_sends:
  assumes "length (m_buffer_c c) = PROTO_BUS_BUFFER_SIZE"
    and "Send f n \<in> set (snd (snd (getData c serverId slot)))"
  shows "frame_ok f n \<and> unat n = unat HeaderSize + 2 \<and> read_le32 f FrameServerId = serverId
       \<and> f ! FrameSlotId = sd_slotId (m_serveSlots c ! unat slot) \<and> f ! FrameFunction = GetReq"
  using getData_cases [of c serverId slot] assms(2)
    header_frame [OF assms(1), of serverId "sd_slotId (m_serveSlots c ! unat slot)" GetReq]
  by (auto simp add: call_sendData_cb_def split: if_splits)

lemma setData_sends:
  assumes "length (m_buffer_c c) = PROTO_BUS_BUFFER_SIZE"
    and "Send f n \<in> set (snd (snd (setData h c serverId slot)))"
  shows "frame_ok f n
       \<and> unat n = unat HeaderSize + unat (sd_size (m_serveSlots c ! unat slot)) + 2
       \<and> read_le32 f FrameServerId = serverId
       \<and> f ! FrameSlotId = sd_slotId (m_serveSlots c ! unat slot) \<and> f ! FrameFunction = SetReq
       \<and> take (unat (sd_size (m_serveSlots c ! unat slot))) (drop FrameData f)
           = load h (sd_data (m_serveSlots c ! unat slot))
               (unat (sd_size (m_serveSlots c ! unat slot)))"
proof -
  from setData_cases [of h c serverId slot] assms(2)
  have okc: "unat HeaderSize + unat (sd_size (m_serveSlots c ! unat slot)) + 2
               \<le> PROTO_BUS_BUFFER_SIZE"
    by auto
  from setData_cases [of h c serverId slot] assms(2)
    payload_frame [OF assms(1) okc, of serverId "sd_slotId (m_serveSlots c ! unat slot)" SetReq
      h "sd_data (m_serveSlots c ! unat slot)"]
  show ?thesis
    by (auto simp add: call_sendData_cb_def split: if_splits)
qed

lemma built_frame_bytes:
  fixes sid :: u32 and k fn :: u8 and pl :: "u8 list"
  assumes buf: "length buf = PROTO_BUS_BUFFER_SIZE"
    and pl: "length pl + 8 \<le> PROTO_BUS_BUFFER_SIZE"
    and len: "unat (len::u8) = 6 + length pl"
  defines "hdr \<equiv> [ucast (sid AND 0xFF), ucast (drop_bit 8 sid AND 0xFF),
                   ucast (drop_bit 16 sid AND 0xFF), ucast (drop_bit 24 sid AND 0xFF), k, fn]"
  defines "crc \<equiv> fold (\<lambda>x c. crc16_byte c x) (hdr @ pl) 0xFFFF"
  shows "take (unat (len + 2))
           (fst (genCRC16
                   (memcpy_to_buf
                      ((write_le32 buf FrameServerId sid)[FrameSlotId := k, FrameFunction := fn])
                      FrameData pl)
                   len))
         = hdr @ pl @ [ucast (crc AND 0xFF), ucast (drop_bit 8 crc AND 0xFF)]"
proof -
  let ?b3 = "(write_le32 buf FrameServerId sid)[FrameSlotId := k, FrameFunction := fn]"
  let ?b4 = "memcpy_to_buf ?b3 FrameData pl"
  note h = header_nth [OF buf, of sid k fn]
  have small: "unat len \<le> 253"
    using pl len by (simp add: PROTO_BUS_BUFFER_SIZE_def)
  have n: "unat (len + 1) = unat len + 1" "unat (len + 2) = unat len + 2"
    using unat_add2 [OF small] by simp_all
  have l4: "length ?b4 = PROTO_BUS_BUFFER_SIZE"
    by (simp add: length_memcpy_to_buf length_write_le32 buf)
  have room: "FrameData + length pl \<le> length ?b3"
    using pl by (simp add: length_write_le32 buf FrameData_def)
  have b4_nth: "?b4 ! i = (if 6 \<le> i \<and> i < 6 + length pl then pl ! (i - 6) else ?b3 ! i)" for i
    using nth_memcpy_to_buf [OF room, of i] by (simp add: FrameData_def)
  have hdr_nth: "?b3 ! i = hdr ! i" if "i < 6" for i
  proof -
    from that consider "i = 0" | "i = Suc 0" | "i = 2" | "i = 3" | "i = 4" | "i = 5"
      by linarith
    then show ?thesis
      by cases (simp_all add: h hdr_def)
  qed
  have body: "map ((!) ?b4) [0..<unat len] = hdr @ pl"
  proof (rule nth_equalityI)
    show "length (map ((!) ?b4) [0..<unat len]) = length (hdr @ pl)"
      using len by (simp add: hdr_def)
  next
    fix i assume "i < length (map ((!) ?b4) [0..<unat len])"
    then have i: "i < 6 + length pl"
      using len by simp
    have lh: "length hdr = 6"
      by (simp add: hdr_def)
    show "map ((!) ?b4) [0..<unat len] ! i = (hdr @ pl) ! i"
      using i len hdr_nth [of i] by (simp add: b4_nth nth_append lh)
  qed
  have c: "crc16_loop ?b4 len 0 0xFFFF = crc"
    by (simp add: crc16_loop_fold body crc_def)
  have tk: "take (unat len) ?b4 = hdr @ pl"
  proof -
    have "take (unat len) ?b4 = map ((!) ?b4) [0..<unat len]"
      using l4 pl len by (intro nth_equalityI) (simp_all add: PROTO_BUS_BUFFER_SIZE_def)
    then show ?thesis
      by (simp add: body)
  qed
  have lt: "unat len + 1 < length ?b4"
    using l4 pl len by (simp add: PROTO_BUS_BUFFER_SIZE_def)
  have "take (unat len + 2)
          (?b4[unat len := ucast (crc AND 0xFF), unat len + 1 := ucast (drop_bit 8 crc AND 0xFF)])
        = take (unat len) ?b4 @ [ucast (crc AND 0xFF), ucast (drop_bit 8 crc AND 0xFF)]"
    using lt by (intro nth_equalityI) (auto simp add: nth_append nth_list_update less_Suc_eq)
  then show ?thesis
    by (simp add: genCRC16_eq c n tk)
qed

lemma inputData_s_sends:
  assumes buf: "length (m_buffer_s s) = PROTO_BUS_BUFFER_SIZE"
    and snd: "Send f n \<in> set (snd (snd (snd (inputData_s h s data sz))))"
  shows "frame_ok f n \<and> read_le32 f FrameServerId = m_serverId s
       \<and> f ! FrameSlotId = data ! FrameSlotId
       \<and> (data ! FrameFunction = SetReq \<and> f ! FrameFunction = SetResp
             \<and> unat n = unat HeaderSize + 2
           \<or> data ! FrameFunction = GetReq \<and> f ! FrameFunction = GetResp
             \<and> (\<exists>j. first_slot s (data ! FrameSlotId) j
                   \<and> unat n = unat HeaderSize + unat (cs_size (m_clientSlots s ! j)) + 2
                   \<and> take (unat (cs_size (m_clientSlots s ! j))) (drop FrameData f)
                       = load h (cs_data (m_clientSlots s ! j))
                           (unat (cs_size (m_clientSlots s ! j)))))"
proof -
  let ?k = "data ! FrameSlotId"
  from inputData_s_cases [of h s data sz]
  consider (none) r where "inputData_s h s data sz = (r, h, s, [])"
    | (get) j where "first_slot s ?k j" "data ! FrameFunction = GetReq"
        "inputData_s h s data sz
           = (case getReq_respond h s ?k (of_nat j) of (r, s1, ev) \<Rightarrow> (r, h, s1, ev))"
    | (set) j where "first_slot s ?k j" "data ! FrameFunction = SetReq"
        "inputData_s h s data sz = setReq_apply h s data ?k (sz - HeaderSize - 2) (of_nat j)"
    by blast
  then show ?thesis
  proof cases
    case none
    with snd show ?thesis by simp
  next
    case get
    have j: "unat (of_nat j :: u8) = j"
      using get(1) by (auto simp add: first_slot_def intro: unat_of_nat_u8)
    let ?p = "cs_size (m_clientSlots s ! j)"
    from getReq_respond_cases [of h s ?k "of_nat j"] get(3) snd
    have okc: "unat HeaderSize + unat ?p + 2 \<le> PROTO_BUS_BUFFER_SIZE"
      by (auto simp add: j)
    from getReq_respond_cases [of h s ?k "of_nat j"] get(3) snd
      payload_frame [OF buf okc, of "m_serverId s" ?k GetResp h "cs_data (m_clientSlots s ! j)"]
    have "frame_ok f n \<and> read_le32 f FrameServerId = m_serverId s \<and> f ! FrameSlotId = ?k
        \<and> f ! FrameFunction = GetResp \<and> unat n = unat HeaderSize + unat ?p + 2
        \<and> take (unat ?p) (drop FrameData f) = load h (cs_data (m_clientSlots s ! j)) (unat ?p)"
      by (auto simp add: j call_sendData_cb_def split: if_splits)
    with get(1,2) show ?thesis by blast
  next
    case set
    from setReq_apply_cases [of h s data ?k "sz - HeaderSize - 2" "of_nat j"] set(3) snd
      header_frame [OF buf, of "m_serverId s" ?k SetResp]
    have "frame_ok f n \<and> read_le32 f FrameServerId = m_serverId s \<and> f ! FrameSlotId = ?k
        \<and> f ! FrameFunction = SetResp \<and> unat n = unat HeaderSize + 2"
      by (auto simp add: call_sendData_cb_def call_dataChanged_cb_def split: if_splits)
    with set(2) show ?thesis by blast
  qed
qed

lemma built_frame_eval:
  fixes sid :: u32 and k fn :: u8 and pl :: "u8 list"
  assumes buf: "length buf = PROTO_BUS_BUFFER_SIZE"
    and pl: "length pl + 8 \<le> PROTO_BUS_BUFFER_SIZE"
    and len: "unat (len::u8) = 6 + length pl"
  defines "hdr \<equiv> [ucast (sid AND 0xFF), ucast (drop_bit 8 sid AND 0xFF),
                   ucast (drop_bit 16 sid AND 0xFF), ucast (drop_bit 24 sid AND 0xFF), k, fn]"
  shows "take (unat (len + 2))
           (fst (genCRC16
                   (memcpy_to_buf
                      ((write_le32 buf FrameServerId sid)[FrameSlotId := k, FrameFunction := fn])
                      FrameData pl)
                   len))
         = hdr @ pl @ [ucast (crc16_loop (hdr @ pl) len 0 0xFFFF AND 0xFF),
                       ucast (drop_bit 8 (crc16_loop (hdr @ pl) len 0 0xFFFF) AND 0xFF)]"
proof -
  have "unat len = length (hdr @ pl)"
    using len by (simp add: hdr_def)
  then have "crc16_loop (hdr @ pl) len 0 0xFFFF
               = fold (\<lambda>x c. crc16_byte c x) (hdr @ pl) 0xFFFF"
    by (simp only: crc16_loop_fold unsigned_0 map_nth)
  then show ?thesis
    using built_frame_bytes [OF buf pl len, of sid k fn] by (simp only: hdr_def)
qed

lemma inputData_s_GetReq:
  fixes s :: SyncBusServer and h :: memory and data :: "u8 list" and sz :: u8 and j :: nat
  assumes "unat HeaderSize + 2 \<le> unat sz" and "checkCRC16 data sz"
    and "read_le32 data FrameServerId = m_serverId s" and "data ! FrameFunction = GetReq"
    and fs: "first_slot s (data ! FrameSlotId) j"
    and okc: "unat HeaderSize + unat (cs_size (m_clientSlots s ! j)) + 2 \<le> PROTO_BUS_BUFFER_SIZE"
  defines "len \<equiv> (ucast ((ucast HeaderSize :: u16) + ucast (cs_size (m_clientSlots s ! j))) :: u8)"
  defines "b \<equiv> fst (genCRC16
                   (memcpy_to_buf
                      ((write_le32 (m_buffer_s s) FrameServerId (m_serverId s))
                         [FrameSlotId := data ! FrameSlotId, FrameFunction := GetResp])
                      FrameData
                      (load h (cs_data (m_clientSlots s ! j))
                         (unat (cs_size (m_clientSlots s ! j)))))
                   len)"
  shows "inputData_s h s data sz
           = (ok, h, s\<lparr>m_buffer_s := b\<rparr>, call_sendData_cb (m_sendData_cb_s s) b (len + 2))"
proof -
  have j: "unat (of_nat j :: u8) = j"
    using fs by (auto simp add: first_slot_def intro: unat_of_nat_u8)
  have "getReq_respond h s (data ! FrameSlotId) (of_nat j)
          = (ok, s\<lparr>m_buffer_s := b\<rparr>, call_sendData_cb (m_sendData_cb_s s) b (len + 2))"
    using getReq_respond_cases [of h s "data ! FrameSlotId" "of_nat j"] okc
    by (auto simp add: j b_def len_def)
  then show ?thesis
    using assms(1-4) size_ok [OF assms(1)]
    by (simp add: inputData_s_def Let_def getReq_loop_first_slot [OF fs])
qed

lemma inputData_s_SetReq:
  fixes s :: SyncBusServer and h :: memory and data :: "u8 list" and sz :: u8 and j :: nat
  assumes "unat HeaderSize + 2 \<le> unat sz" and "checkCRC16 data sz"
    and "read_le32 data FrameServerId = m_serverId s" and "data ! FrameFunction = SetReq"
    and fs: "first_slot s (data ! FrameSlotId) j"
    and eq: "unat sz - unat HeaderSize - 2 = unat (cs_size (m_clientSlots s ! j))"
  defines "b \<equiv> fst (genCRC16 ((write_le32 (m_buffer_s s) FrameServerId (m_serverId s))
                      [FrameSlotId := data ! FrameSlotId, FrameFunction := SetResp]) HeaderSize)"
  shows "inputData_s h s data sz
           = (ok,
              memcpy_to_mem h (cs_data (m_clientSlots s ! j))
                (take (unat (cs_size (m_clientSlots s ! j))) (drop FrameData data)),
              s\<lparr>m_buffer_s := b\<rparr>,
              call_dataChanged_cb (m_dataChanged_cb_s s) (data ! FrameSlotId)
                @ call_sendData_cb (m_sendData_cb_s s) b (HeaderSize + 2))"
proof -
  have j: "unat (of_nat j :: u8) = j"
    using fs by (auto simp add: first_slot_def intro: unat_of_nat_u8)
  have pl: "sz - HeaderSize - 2 = cs_size (m_clientSlots s ! j)"
    using eq unat_payloadLen [OF assms(1)] by (simp add: word_unat_eq_iff)
  have ne: "data ! FrameFunction \<noteq> GetReq"
    using assms(4) by (simp add: GetReq_def SetReq_def)
  have "setReq_apply h s data (data ! FrameSlotId) (sz - HeaderSize - 2) (of_nat j)
          = (ok,
              memcpy_to_mem h (cs_data (m_clientSlots s ! j))
                (take (unat (cs_size (m_clientSlots s ! j))) (drop FrameData data)),
              s\<lparr>m_buffer_s := b\<rparr>,
              call_dataChanged_cb (m_dataChanged_cb_s s) (data ! FrameSlotId)
                @ call_sendData_cb (m_sendData_cb_s s) b (HeaderSize + 2))"
    using setReq_apply_cases [of h s data "data ! FrameSlotId" "sz - HeaderSize - 2" "of_nat j"]
    by (auto simp add: j pl b_def)
  then show ?thesis
    using assms(1-4) ne size_ok [OF assms(1)]
    by (simp add: inputData_s_def Let_def setReq_loop_first_slot [OF fs])
qed

lemma inputData_c_GetResp:
  fixes c :: SyncBusClient and h :: memory and data :: "u8 list" and sz :: u8 and j :: nat
  assumes "unat HeaderSize + 2 \<le> unat sz" and "checkCRC16 data sz"
    and "data ! FrameFunction = GetResp"
    and fb: "first_binding c (read_le32 data FrameServerId) (data ! FrameSlotId) j"
    and eq: "unat sz - unat HeaderSize - 2 = unat (sd_size (m_serveSlots c ! j))"
  shows "inputData_c h c data sz
           = (ok,
              memcpy_to_mem h (sd_data (m_serveSlots c ! j))
                (take (unat (sd_size (m_serveSlots c ! j))) (drop FrameData data)),
              call_dataChanged_cb (m_dataChanged_cb_c c) (data ! FrameSlotId))"
proof -
  have j: "unat (of_nat j :: u8) = j"
    using fb by (auto simp add: first_binding_def intro: unat_of_nat_u8)
  have pl: "sz - HeaderSize - 2 = sd_size (m_serveSlots c ! j)"
    using eq unat_payloadLen [OF assms(1)] by (simp add: word_unat_eq_iff)
  show ?thesis
    using assms(1-3) size_ok [OF assms(1)]
    by (simp add: inputData_c_def Let_def getResp_loop_first_binding [OF fb]
          getResp_apply_def j pl)
qed

subsection \<open>Outgoing frames on the example\<close>

lemmas frame_eval = crc16_loop.simps crc16_byte_unroll crc16_shift_def Let_def layout_defs
  kServerId_def

lemma getData_events:
  fixes c :: SyncBusClient and serverId :: u32 and slot :: u8
  assumes "length (m_buffer_c c) = PROTO_BUS_BUFFER_SIZE"
    and "slot < m_numSlots_c c" and "sd_data (m_serveSlots c ! unat slot) \<noteq> nullptr"
    and "m_sendData_cb_c c"
  defines "hdr \<equiv> [ucast (serverId AND 0xFF), ucast (drop_bit 8 serverId AND 0xFF),
                   ucast (drop_bit 16 serverId AND 0xFF), ucast (drop_bit 24 serverId AND 0xFF),
                   sd_slotId (m_serveSlots c ! unat slot), GetReq]"
  shows "snd (snd (getData c serverId slot))
           = [Send (hdr @ [ucast (crc16_loop hdr HeaderSize 0 0xFFFF AND 0xFF),
                           ucast (drop_bit 8 (crc16_loop hdr HeaderSize 0 0xFFFF) AND 0xFF)])
                   (HeaderSize + 2)]"
  using built_frame_eval [OF assms(1), where pl = "[]" and len = HeaderSize and sid = serverId
          and k = "sd_slotId (m_serveSlots c ! unat slot)" and fn = GetReq]
    getData_eq [OF assms(2,3), of serverId] assms(4)
  by (simp add: hdr_def call_sendData_cb_def PROTO_BUS_BUFFER_SIZE_def HeaderSize_def)

lemma getData_example:
  "snd (snd (getData g_client kServerId 1)) = [Send frame_GetReq_2 8]"
  using getData_events [of g_client 1 kServerId]
  by (simp add: g_client_def frame_GetReq_2_def frame_eval)

lemma setData_events:
  fixes c :: SyncBusClient and serverId :: u32 and slot :: u8 and h :: memory
  assumes buf: "length (m_buffer_c c) = PROTO_BUS_BUFFER_SIZE"
    and a: "slot < m_numSlots_c c" "sd_data (m_serveSlots c ! unat slot) \<noteq> nullptr"
    and okc: "unat HeaderSize + unat (sd_size (m_serveSlots c ! unat slot)) + 2
                \<le> PROTO_BUS_BUFFER_SIZE"
    and cb: "m_sendData_cb_c c"
  defines "pl \<equiv> load h (sd_data (m_serveSlots c ! unat slot))
                  (unat (sd_size (m_serveSlots c ! unat slot)))"
  defines "len \<equiv> (ucast ((ucast HeaderSize :: u16)
                    + ucast (sd_size (m_serveSlots c ! unat slot))) :: u8)"
  defines "hdr \<equiv> [ucast (serverId AND 0xFF), ucast (drop_bit 8 serverId AND 0xFF),
                   ucast (drop_bit 16 serverId AND 0xFF), ucast (drop_bit 24 serverId AND 0xFF),
                   sd_slotId (m_serveSlots c ! unat slot), SetReq]"
  shows "snd (snd (setData h c serverId slot))
           = [Send (hdr @ pl @ [ucast (crc16_loop (hdr @ pl) len 0 0xFFFF AND 0xFF),
                                ucast (drop_bit 8 (crc16_loop (hdr @ pl) len 0 0xFFFF) AND 0xFF)])
                   (len + 2)]"
proof -
  have p: "length pl + 8 \<le> PROTO_BUS_BUFFER_SIZE"
    using okc by (simp add: pl_def length_load HeaderSize_def)
  have l: "unat len = 6 + length pl"
    unfolding len_def using unat_len_u8 [OF okc] by (simp add: pl_def length_load)
  note b = built_frame_eval [OF buf p l, of serverId "sd_slotId (m_serveSlots c ! unat slot)"
      SetReq]
  from setData_cases [of h c serverId slot] a okc
  have "snd (snd (setData h c serverId slot))
          = call_sendData_cb (m_sendData_cb_c c)
              (fst (genCRC16
                 (memcpy_to_buf
                    ((write_le32 (m_buffer_c c) FrameServerId serverId)
                       [FrameSlotId := sd_slotId (m_serveSlots c ! unat slot),
                        FrameFunction := SetReq])
                    FrameData pl) len))
              (len + 2)"
    unfolding pl_def len_def by (auto simp add: word_le_nat_alt word_less_nat_alt)
  then show ?thesis
    using cb by (simp add: call_sendData_cb_def b hdr_def)
qed

lemma inputData_s_GetReq_events:
  fixes s :: SyncBusServer and h :: memory and data :: "u8 list" and sz :: u8 and j :: nat
  assumes buf: "length (m_buffer_s s) = PROTO_BUS_BUFFER_SIZE"
    and v: "unat HeaderSize + 2 \<le> unat sz" "checkCRC16 data sz"
      "read_le32 data FrameServerId = m_serverId s" "data ! FrameFunction = GetReq"
    and fs: "first_slot s (data ! FrameSlotId) j"
    and okc: "unat HeaderSize + unat (cs_size (m_clientSlots s ! j)) + 2 \<le> PROTO_BUS_BUFFER_SIZE"
    and cb: "m_sendData_cb_s s"
  defines "pl \<equiv> load h (cs_data (m_clientSlots s ! j)) (unat (cs_size (m_clientSlots s ! j)))"
  defines "len \<equiv> (ucast ((ucast HeaderSize :: u16) + ucast (cs_size (m_clientSlots s ! j))) :: u8)"
  defines "hdr \<equiv> [ucast (m_serverId s AND 0xFF), ucast (drop_bit 8 (m_serverId s) AND 0xFF),
                   ucast (drop_bit 16 (m_serverId s) AND 0xFF),
                   ucast (drop_bit 24 (m_serverId s) AND 0xFF), data ! FrameSlotId, GetResp]"
  shows "snd (snd (snd (inputData_s h s data sz)))
           = [Send (hdr @ pl @ [ucast (crc16_loop (hdr @ pl) len 0 0xFFFF AND 0xFF),
                                ucast (drop_bit 8 (crc16_loop (hdr @ pl) len 0 0xFFFF) AND 0xFF)])
                   (len + 2)]"
proof -
  have p: "length pl + 8 \<le> PROTO_BUS_BUFFER_SIZE"
    using okc by (simp add: pl_def length_load HeaderSize_def)
  have l: "unat len = 6 + length pl"
    unfolding len_def using unat_len_u8 [OF okc] by (simp add: pl_def length_load)
  note b = built_frame_eval [OF buf p l, of "m_serverId s" "data ! FrameSlotId" GetResp]
  show ?thesis
    using cb
    by (simp add: inputData_s_GetReq [OF v fs okc] call_sendData_cb_def
          b [unfolded pl_def len_def] hdr_def pl_def len_def)
qed

lemma inputData_s_SetReq_events:
  fixes s :: SyncBusServer and h :: memory and data :: "u8 list" and sz :: u8 and j :: nat
  assumes buf: "length (m_buffer_s s) = PROTO_BUS_BUFFER_SIZE"
    and v: "unat HeaderSize + 2 \<le> unat sz" "checkCRC16 data sz"
      "read_le32 data FrameServerId = m_serverId s" "data ! FrameFunction = SetReq"
    and fs: "first_slot s (data ! FrameSlotId) j"
    and eq: "unat sz - unat HeaderSize - 2 = unat (cs_size (m_clientSlots s ! j))"
    and cb: "m_sendData_cb_s s" "m_dataChanged_cb_s s"
  defines "hdr \<equiv> [ucast (m_serverId s AND 0xFF), ucast (drop_bit 8 (m_serverId s) AND 0xFF),
                   ucast (drop_bit 16 (m_serverId s) AND 0xFF),
                   ucast (drop_bit 24 (m_serverId s) AND 0xFF), data ! FrameSlotId, SetResp]"
  shows "snd (snd (snd (inputData_s h s data sz)))
           = [Changed (data ! FrameSlotId),
              Send (hdr @ [ucast (crc16_loop hdr HeaderSize 0 0xFFFF AND 0xFF),
                           ucast (drop_bit 8 (crc16_loop hdr HeaderSize 0 0xFFFF) AND 0xFF)])
                   (HeaderSize + 2)]"
  using built_frame_eval [OF buf, where pl = "[]" and len = HeaderSize and sid = "m_serverId s"
          and k = "data ! FrameSlotId" and fn = SetResp] cb
  by (simp add: inputData_s_SetReq [OF v fs eq] hdr_def call_sendData_cb_def
        call_dataChanged_cb_def PROTO_BUS_BUFFER_SIZE_def HeaderSize_def)

lemma load_4: "load h p 4 = [h p, h (p + 1), h (p + 2), h (p + 3)]"
  by (simp add: load_def eval_nat_numeral)

lemma setData_example:
  "snd (snd (setData ex_memory g_client kServerId 1)) = [Send frame_SetReq_2_mirror 12]"
  using setData_events [of g_client 1 ex_memory kServerId]
  by (simp add: g_client_def frame_SetReq_2_mirror_def frame_eval load_4 ex_memory_def)

lemma inputData_s_GetReq_example:
  "snd (snd (snd (inputData_s ex_memory g_server frame_GetReq_2 8))) = [Send frame_GetResp_2 12]"
  using inputData_s_GetReq_events [of g_server 8 frame_GetReq_2 1 ex_memory] frames_valid(1)
  by (simp add: g_server_def frame_GetReq_2_def frame_GetResp_2_def frame_eval load_4
        ex_memory_def table_defs read_le32_def)

lemma inputData_s_SetReq_example:
  "snd (snd (snd (inputData_s ex_memory g_server frame_SetReq_2 12)))
     = [Changed 2, Send frame_SetResp_2 8]"
  using inputData_s_SetReq_events [of g_server 12 frame_SetReq_2 1 ex_memory] frames_valid(8)
  by (simp add: g_server_def frame_SetReq_2_def frame_SetResp_2_def frame_eval
        table_defs read_le32_def)

subsection \<open>The slot tables\<close>

lemma take_Suc_update:
  "k < length xs \<Longrightarrow> take (Suc k) (xs[k := e]) = take k xs @ [e]"
  by (simp add: take_Suc_conv_app_nth)

lemma client_new_ok:
  assumes "length slots0 = unat n" and "length buf0 = PROTO_BUS_BUFFER_SIZE"
  shows "client_arrays (SyncBusClient_new n scb dcb slots0 buf0)
       \<and> client_table_ok (SyncBusClient_new n scb dcb slots0 buf0)"
  using assms by (simp add: client_arrays_def client_table_ok_def SyncBusClient_new_def)

lemma server_new_ok:
  assumes "length slots0 = unat n" and "length buf0 = PROTO_BUS_BUFFER_SIZE"
  shows "server_arrays (SyncBusServer_new n ident scb dcb slots0 buf0)
       \<and> server_table_ok (SyncBusServer_new n ident scb dcb slots0 buf0)"
  using assms by (simp add: server_arrays_def server_table_ok_def SyncBusServer_new_def)

lemma addData_ok:
  assumes "client_arrays c" and "client_table_ok c"
  shows "client_arrays (snd (addData c data serverId slotId sz))
       \<and> client_table_ok (snd (addData c data serverId slotId sz))"
proof (cases "fst (addData c data serverId slotId sz) = ok")
  case False
  then have "snd (addData c data serverId slotId sz) = c"
    by (auto simp add: addData_def split: if_splits)
  with assms show ?thesis by simp
next
  case True
  then have d: "data \<noteq> nullptr" and lt: "m_numSlots_c c < numSlots_c c"
    and fit: "unat HeaderSize + unat sz + 2 \<le> PROTO_BUS_BUFFER_SIZE"
    by (auto simp add: addData_def split: if_splits)
  let ?e = "\<lparr>sd_data = data, sd_serverId = serverId, sd_slotId = slotId, sd_size = sz\<rparr>"
  have eq: "snd (addData c data serverId slotId sz)
              = c\<lparr>m_serveSlots := (m_serveSlots c)[unat (m_numSlots_c c) := ?e],
                  m_numSlots_c := m_numSlots_c c + 1\<rparr>"
    using d lt fit by (simp add: addData_def)
  have k: "unat (m_numSlots_c c) < length (m_serveSlots c)"
    using lt assms(1) by (simp add: client_arrays_def word_less_nat_alt)
  have inc: "unat (m_numSlots_c c + 1) = Suc (unat (m_numSlots_c c))"
    by (rule unat_inc_less [OF lt])
  have le: "m_numSlots_c c + 1 \<le> numSlots_c c"
    using lt inc by (simp add: word_le_nat_alt word_less_nat_alt)
  show ?thesis
    using assms d fit k le
    by (simp add: eq client_arrays_def client_table_ok_def inc take_Suc_update)
qed

lemma addSlot_ok:
  assumes "server_arrays s" and "server_table_ok s"
  shows "server_arrays (snd (addSlot s data slotId sz))
       \<and> server_table_ok (snd (addSlot s data slotId sz))"
proof (cases "fst (addSlot s data slotId sz) = ok")
  case False
  then have "snd (addSlot s data slotId sz) = s"
    by (auto simp add: addSlot_def split: if_splits)
  with assms show ?thesis by simp
next
  case True
  then have d: "data \<noteq> nullptr" and lt: "m_numSlots_s s < numSlots_s s"
    and fit: "unat HeaderSize + unat sz + 2 \<le> PROTO_BUS_BUFFER_SIZE"
    by (auto simp add: addSlot_def split: if_splits)
  let ?e = "\<lparr>cs_data = data, cs_slotId = slotId, cs_size = sz\<rparr>"
  have eq: "snd (addSlot s data slotId sz)
              = s\<lparr>m_clientSlots := (m_clientSlots s)[unat (m_numSlots_s s) := ?e],
                  m_numSlots_s := m_numSlots_s s + 1\<rparr>"
    using d lt fit by (simp add: addSlot_def)
  have k: "unat (m_numSlots_s s) < length (m_clientSlots s)"
    using lt assms(1) by (simp add: server_arrays_def word_less_nat_alt)
  have inc: "unat (m_numSlots_s s + 1) = Suc (unat (m_numSlots_s s))"
    by (rule unat_inc_less [OF lt])
  have le: "m_numSlots_s s + 1 \<le> numSlots_s s"
    using lt inc by (simp add: word_le_nat_alt word_less_nat_alt)
  show ?thesis
    using assms d fit k le
    by (simp add: eq server_arrays_def server_table_ok_def inc take_Suc_update)
qed

lemma buffer_update_ok_c:
  assumes "client_arrays c" and "client_table_ok c" and "length b = PROTO_BUS_BUFFER_SIZE"
  shows "client_arrays (c\<lparr>m_buffer_c := b\<rparr>) \<and> client_table_ok (c\<lparr>m_buffer_c := b\<rparr>)"
  using assms by (simp add: client_arrays_def client_table_ok_def)

lemma buffer_update_ok_s:
  assumes "server_arrays s" and "server_table_ok s" and "length b = PROTO_BUS_BUFFER_SIZE"
  shows "server_arrays (s\<lparr>m_buffer_s := b\<rparr>) \<and> server_table_ok (s\<lparr>m_buffer_s := b\<rparr>)"
  using assms by (simp add: server_arrays_def server_table_ok_def)

lemma getData_ok:
  assumes "client_arrays c" and "client_table_ok c"
  shows "client_arrays (fst (snd (getData c serverId slot)))
       \<and> client_table_ok (fst (snd (getData c serverId slot)))"
proof -
  have l: "length (m_buffer_c c) = PROTO_BUS_BUFFER_SIZE"
    using assms(1) by (simp add: client_arrays_def)
  from getData_cases [of c serverId slot]
    header_frame [OF l, of serverId "sd_slotId (m_serveSlots c ! unat slot)" GetReq]
    buffer_update_ok_c [OF assms]
  show ?thesis
    using assms by auto
qed

lemma setData_ok:
  assumes "client_arrays c" and "client_table_ok c"
  shows "client_arrays (fst (snd (setData h c serverId slot)))
       \<and> client_table_ok (fst (snd (setData h c serverId slot)))"
proof -
  have l: "length (m_buffer_c c) = PROTO_BUS_BUFFER_SIZE"
    using assms(1) by (simp add: client_arrays_def)
  from setData_cases [of h c serverId slot]
  consider "fst (snd (setData h c serverId slot)) = c"
    | "unat HeaderSize + unat (sd_size (m_serveSlots c ! unat slot)) + 2 \<le> PROTO_BUS_BUFFER_SIZE"
      "fst (snd (setData h c serverId slot))
         = c\<lparr>m_buffer_c := fst (genCRC16
             (memcpy_to_buf
                ((write_le32 (m_buffer_c c) FrameServerId serverId)
                   [FrameSlotId := sd_slotId (m_serveSlots c ! unat slot),
                    FrameFunction := SetReq])
                FrameData
                (load h (sd_data (m_serveSlots c ! unat slot))
                   (unat (sd_size (m_serveSlots c ! unat slot)))))
             (ucast ((ucast HeaderSize :: u16)
                + ucast (sd_size (m_serveSlots c ! unat slot)))))\<rparr>"
    by auto
  then show ?thesis
  proof cases
    case 1
    with assms show ?thesis by simp
  next
    case 2
    from payload_frame [OF l 2(1), of serverId "sd_slotId (m_serveSlots c ! unat slot)" SetReq
        h "sd_data (m_serveSlots c ! unat slot)"]
    show ?thesis
      unfolding 2(2) by (intro buffer_update_ok_c [OF assms]) simp
  qed
qed

lemma client_entry_ok:
  assumes "client_arrays c" and "client_table_ok c" and "j < unat (m_numSlots_c c)"
  shows "sd_data (m_serveSlots c ! j) \<noteq> nullptr
       \<and> unat HeaderSize + unat (sd_size (m_serveSlots c ! j)) + 2 \<le> PROTO_BUS_BUFFER_SIZE"
proof -
  have "unat (m_numSlots_c c) \<le> length (m_serveSlots c)"
    using assms(1,2) by (simp add: client_arrays_def client_table_ok_def word_le_nat_alt)
  then have "j < length (take (unat (m_numSlots_c c)) (m_serveSlots c))"
    using assms(3) by simp
  moreover have "list_all (\<lambda>e. sd_data e \<noteq> nullptr
        \<and> unat HeaderSize + unat (sd_size e) + 2 \<le> PROTO_BUS_BUFFER_SIZE)
      (take (unat (m_numSlots_c c)) (m_serveSlots c))"
    using assms(2) by (simp add: client_table_ok_def)
  ultimately show ?thesis
    using assms(3) by (auto simp add: list_all_length)
qed

lemma server_entry_ok:
  assumes "server_arrays s" and "server_table_ok s" and "j < unat (m_numSlots_s s)"
  shows "cs_data (m_clientSlots s ! j) \<noteq> nullptr
       \<and> unat HeaderSize + unat (cs_size (m_clientSlots s ! j)) + 2 \<le> PROTO_BUS_BUFFER_SIZE"
proof -
  have "unat (m_numSlots_s s) \<le> length (m_clientSlots s)"
    using assms(1,2) by (simp add: server_arrays_def server_table_ok_def word_le_nat_alt)
  then have "j < length (take (unat (m_numSlots_s s)) (m_clientSlots s))"
    using assms(3) by simp
  moreover have "list_all (\<lambda>e. cs_data e \<noteq> nullptr
        \<and> unat HeaderSize + unat (cs_size e) + 2 \<le> PROTO_BUS_BUFFER_SIZE)
      (take (unat (m_numSlots_s s)) (m_clientSlots s))"
    using assms(2) by (simp add: server_table_ok_def)
  ultimately show ?thesis
    using assms(3) by (auto simp add: list_all_length)
qed

lemma getData_no_fault:
  assumes "client_arrays c" and "client_table_ok c"
  shows "fst (getData c serverId slot) \<noteq> errFault"
  using getData_cases [of c serverId slot]
    client_entry_ok [OF assms, of "unat slot"]
  by (auto simp add: word_less_nat_alt)

lemma setData_no_fault:
  assumes "client_arrays c" and "client_table_ok c"
  shows "fst (setData h c serverId slot) \<noteq> errFault"
  using setData_cases [of h c serverId slot]
    client_entry_ok [OF assms, of "unat slot"]
  by (auto simp add: word_less_nat_alt)

lemma inputData_s_ok:
  assumes "server_arrays s" and "server_table_ok s"
  shows "fst (inputData_s h s data sz) \<noteq> errOverflow
       \<and> server_arrays (fst (snd (snd (inputData_s h s data sz))))
       \<and> server_table_ok (fst (snd (snd (inputData_s h s data sz))))"
proof -
  let ?k = "data ! FrameSlotId"
  have l: "length (m_buffer_s s) = PROTO_BUS_BUFFER_SIZE"
    using assms(1) by (simp add: server_arrays_def)
  from inputData_s_cases [of h s data sz]
  consider (none) r where "r \<noteq> errOverflow" "inputData_s h s data sz = (r, h, s, [])"
    | (get) j where "first_slot s ?k j"
        "inputData_s h s data sz
           = (case getReq_respond h s ?k (of_nat j) of (r, s1, ev) \<Rightarrow> (r, h, s1, ev))"
    | (set) j where "first_slot s ?k j"
        "inputData_s h s data sz = setReq_apply h s data ?k (sz - HeaderSize - 2) (of_nat j)"
    by blast
  then show ?thesis
  proof cases
    case none
    with assms show ?thesis by simp
  next
    case get
    have lt: "j < unat (m_numSlots_s s)"
      using get(1) by (simp add: first_slot_def)
    have j: "unat (of_nat j :: u8) = j"
      using lt by (rule unat_of_nat_u8)
    note okc = server_entry_ok [OF assms lt, THEN conjunct2]
    note pf = payload_frame [OF l okc, of "m_serverId s" ?k GetResp h
        "cs_data (m_clientSlots s ! j)"]
    from getReq_respond_cases [of h s ?k "of_nat j"] okc
    have "getReq_respond h s ?k (of_nat j)
            = (ok, s\<lparr>m_buffer_s := fst (genCRC16
                 (memcpy_to_buf
                    ((write_le32 (m_buffer_s s) FrameServerId (m_serverId s))
                       [FrameSlotId := ?k, FrameFunction := GetResp])
                    FrameData
                    (load h (cs_data (m_clientSlots s ! j))
                       (unat (cs_size (m_clientSlots s ! j)))))
                 (ucast ((ucast HeaderSize :: u16) + ucast (cs_size (m_clientSlots s ! j)))))\<rparr>,
               call_sendData_cb (m_sendData_cb_s s)
                 (fst (genCRC16
                   (memcpy_to_buf
                      ((write_le32 (m_buffer_s s) FrameServerId (m_serverId s))
                         [FrameSlotId := ?k, FrameFunction := GetResp])
                      FrameData
                      (load h (cs_data (m_clientSlots s ! j))
                         (unat (cs_size (m_clientSlots s ! j)))))
                   (ucast ((ucast HeaderSize :: u16) + ucast (cs_size (m_clientSlots s ! j))))))
                 (ucast ((ucast HeaderSize :: u16) + ucast (cs_size (m_clientSlots s ! j))) + 2))"
      by (auto simp add: j)
    then show ?thesis
      using pf buffer_update_ok_s [OF assms] by (simp add: get(2))
  next
    case set
    note hf = header_frame [OF l, of "m_serverId s" ?k SetResp]
    from setReq_apply_cases [of h s data ?k "sz - HeaderSize - 2" "of_nat j"]
    show ?thesis
      using hf buffer_update_ok_s [OF assms] assms by (auto simp add: set(2))
  qed
qed

lemma client_do_ok:
  assumes "client_arrays (snd st)" and "client_table_ok (snd st)"
  shows "client_arrays (snd (client_do st call)) \<and> client_table_ok (snd (client_do st call))"
proof (cases st)
  case (Pair h c)
  with assms show ?thesis
    by (cases call) (simp_all add: addData_ok getData_ok setData_ok)
qed

lemma server_do_ok:
  assumes "server_arrays (snd st)" and "server_table_ok (snd st)"
  shows "server_arrays (snd (server_do st call)) \<and> server_table_ok (snd (server_do st call))"
proof (cases st)
  case (Pair h s)
  show ?thesis
  proof (cases call)
    case (Server_addSlot data slotId sz)
    with Pair assms show ?thesis by (simp add: addSlot_ok)
  next
    case (Server_setId serverId)
    with Pair assms show ?thesis
      by (simp add: setId_def server_arrays_def server_table_ok_def)
  next
    case (Server_inputData data sz)
    with Pair assms inputData_s_ok [of s h data sz] show ?thesis
      by (simp add: case_prod_unfold)
  qed
qed

lemma client_run_ok:
  "client_arrays (snd st) \<Longrightarrow> client_table_ok (snd st)
   \<Longrightarrow> client_arrays (snd (foldl client_do st calls))
     \<and> client_table_ok (snd (foldl client_do st calls))"
  by (induction calls arbitrary: st) (simp_all add: client_do_ok)

lemma server_run_ok:
  "server_arrays (snd st) \<Longrightarrow> server_table_ok (snd st)
   \<Longrightarrow> server_arrays (snd (foldl server_do st calls))
     \<and> server_table_ok (snd (foldl server_do st calls))"
  by (induction calls arbitrary: st) (simp_all add: server_do_ok)

subsection \<open>A GET over the wiring\<close>

lemma first_binding_buffer [simp]:
  "first_binding (c\<lparr>m_buffer_c := b\<rparr>) serverId slotId j = first_binding c serverId slotId j"
  by (simp add: first_binding_def binding_matches_def [abs_def])

lemma no_binding_buffer [simp]:
  "no_binding (c\<lparr>m_buffer_c := b\<rparr>) serverId slotId = no_binding c serverId slotId"
  by (simp add: no_binding_def binding_matches_def [abs_def])

lemma frame_ok_valid:
  "frame_ok f n \<Longrightarrow> unat HeaderSize + 2 \<le> unat n \<and> checkCRC16 f n"
  by (simp add: frame_ok_def)

lemma load_memcpy_to_mem: "load (memcpy_to_mem h p bs) p (length bs) = bs"
  by (rule nth_equalityI) (simp_all add: load_def memcpy_to_mem_def)

text \<open>The request of a GET over the wiring reaches the server as a valid \<^verbatim>\<open>GetReq\<close>
  for the binding's slot id and the caller's server id.\<close>

lemma get_exchange_request:
  fixes c :: SyncBusClient and serverId :: u32 and slot :: u8
  assumes ca: "client_arrays c" "client_table_ok c" and cb: "m_sendData_cb_c c"
    and idx: "slot < m_numSlots_c c"
  defines "b \<equiv> fst (genCRC16 ((write_le32 (m_buffer_c c) FrameServerId serverId)
                      [FrameSlotId := sd_slotId (m_serveSlots c ! unat slot),
                       FrameFunction := GetReq]) HeaderSize)"
  defines "f \<equiv> take (unat (HeaderSize + 2)) b"
  shows "getData c serverId slot = (ok, c\<lparr>m_buffer_c := b\<rparr>, [Send f (HeaderSize + 2)])"
    and "unat HeaderSize + 2 \<le> unat (HeaderSize + 2)" and "checkCRC16 f (HeaderSize + 2)"
    and "read_le32 f FrameServerId = serverId"
    and "f ! FrameSlotId = sd_slotId (m_serveSlots c ! unat slot)"
    and "f ! FrameFunction = GetReq"
proof -
  have l: "length (m_buffer_c c) = PROTO_BUS_BUFFER_SIZE"
    using ca(1) by (simp add: client_arrays_def)
  have nn: "sd_data (m_serveSlots c ! unat slot) \<noteq> nullptr"
    using client_entry_ok [OF ca, of "unat slot"] idx by (simp add: word_less_nat_alt)
  show "getData c serverId slot = (ok, c\<lparr>m_buffer_c := b\<rparr>, [Send f (HeaderSize + 2)])"
    using getData_eq [OF idx nn, of serverId] cb by (simp add: b_def f_def call_sendData_cb_def)
  note hf = header_frame [OF l, of serverId "sd_slotId (m_serveSlots c ! unat slot)" GetReq]
  from hf have fo: "frame_ok f (HeaderSize + 2)"
    unfolding b_def f_def by blast
  from frame_ok_valid [OF fo] show "unat HeaderSize + 2 \<le> unat (HeaderSize + 2)"
    and "checkCRC16 f (HeaderSize + 2)"
    by blast+
  from hf show "read_le32 f FrameServerId = serverId"
    unfolding b_def f_def by blast
  from hf show "f ! FrameSlotId = sd_slotId (m_serveSlots c ! unat slot)"
    unfolding b_def f_def by blast
  from hf show "f ! FrameFunction = GetReq"
    unfolding b_def f_def by blast
qed

text \<open>The server answers a valid \<^verbatim>\<open>GetReq\<close> for a slot it has with a valid
  \<^verbatim>\<open>GetResp\<close> that carries its own id, the slot id and the content of the buffer of
  the first slot with that id.\<close>

lemma get_exchange_response:
  fixes s :: SyncBusServer and h :: memory and data :: "u8 list" and sz :: u8 and j :: nat
  assumes sa: "server_arrays s" "server_table_ok s" and cb: "m_sendData_cb_s s"
    and v: "unat HeaderSize + 2 \<le> unat sz" "checkCRC16 data sz"
      "read_le32 data FrameServerId = m_serverId s" "data ! FrameFunction = GetReq"
    and fs: "first_slot s (data ! FrameSlotId) j"
  defines "p \<equiv> cs_size (m_clientSlots s ! j)"
  defines "len \<equiv> (ucast ((ucast HeaderSize :: u16) + ucast p) :: u8)"
  defines "b \<equiv> fst (genCRC16
                   (memcpy_to_buf
                      ((write_le32 (m_buffer_s s) FrameServerId (m_serverId s))
                         [FrameSlotId := data ! FrameSlotId, FrameFunction := GetResp])
                      FrameData (load h (cs_data (m_clientSlots s ! j)) (unat p)))
                   len)"
  defines "f \<equiv> take (unat (len + 2)) b"
  shows "inputData_s h s data sz = (ok, h, s\<lparr>m_buffer_s := b\<rparr>, [Send f (len + 2)])"
    and "unat HeaderSize + 2 \<le> unat (len + 2)" and "checkCRC16 f (len + 2)"
    and "read_le32 f FrameServerId = m_serverId s"
    and "f ! FrameSlotId = data ! FrameSlotId"
    and "f ! FrameFunction = GetResp"
    and "unat (len + 2) - unat HeaderSize - 2 = unat p"
    and "take (unat p) (drop FrameData f) = load h (cs_data (m_clientSlots s ! j)) (unat p)"
proof -
  have l: "length (m_buffer_s s) = PROTO_BUS_BUFFER_SIZE"
    using sa(1) by (simp add: server_arrays_def)
  have lt: "j < unat (m_numSlots_s s)"
    using fs by (simp add: first_slot_def)
  have okc: "unat HeaderSize + unat p + 2 \<le> PROTO_BUS_BUFFER_SIZE"
    unfolding p_def by (rule server_entry_ok [OF sa lt, THEN conjunct2])
  show "inputData_s h s data sz = (ok, h, s\<lparr>m_buffer_s := b\<rparr>, [Send f (len + 2)])"
    using inputData_s_GetReq [OF v fs okc [unfolded p_def], of h] cb
    by (simp add: b_def f_def len_def p_def call_sendData_cb_def)
  note pf = payload_frame [OF l okc, of "m_serverId s" "data ! FrameSlotId" GetResp h
      "cs_data (m_clientSlots s ! j)"]
  from pf have fo: "frame_ok f (len + 2)"
    unfolding b_def f_def len_def by blast
  from frame_ok_valid [OF fo] show "unat HeaderSize + 2 \<le> unat (len + 2)"
    and "checkCRC16 f (len + 2)"
    by blast+
  from pf show "read_le32 f FrameServerId = m_serverId s"
    unfolding b_def f_def len_def by blast
  from pf show "f ! FrameSlotId = data ! FrameSlotId"
    unfolding b_def f_def len_def by blast
  from pf show "f ! FrameFunction = GetResp"
    unfolding b_def f_def len_def by blast
  from pf have "unat (len + 2) = unat HeaderSize + unat p + 2"
    unfolding len_def by blast
  then show "unat (len + 2) - unat HeaderSize - 2 = unat p"
    by simp
  from pf show "take (unat p) (drop FrameData f) = load h (cs_data (m_clientSlots s ! j)) (unat p)"
    unfolding b_def f_def len_def by blast
qed

lemma inputData_c_unmatched:
  assumes "unat HeaderSize + 2 \<le> unat sz" and "checkCRC16 data sz"
    and "data ! FrameFunction = GetResp"
    and "no_binding c (read_le32 data FrameServerId) (data ! FrameSlotId)"
  shows "inputData_c h c data sz = (ok, h, [])"
  using assms size_ok [OF assms(1)]
  by (simp add: inputData_c_def Let_def getResp_loop_no_binding)

text \<open>A GET over the wiring, up to the client's \<^verbatim>\<open>inputData\<close> on the response: the
  first two calls return \<^verbatim>\<open>ok\<close>, and the response is a valid \<^verbatim>\<open>GetResp\<close> frame
  \<open>f\<close> of \<open>n\<close> bytes with the server's id, the slot id of the binding and the content
  of the server's first slot with that id.\<close>

lemma get_exchange_steps:
  fixes c :: SyncBusClient and s :: SyncBusServer and serverId :: u32 and slot :: u8
  assumes ca: "client_arrays c" "client_table_ok c" and cbc: "m_sendData_cb_c c"
    and idx: "slot < m_numSlots_c c"
    and sa: "server_arrays s" "server_table_ok s" and cbs: "m_sendData_cb_s s"
    and sid: "m_serverId s = serverId"
    and fs: "first_slot s (sd_slotId (m_serveSlots c ! unat slot)) j"
  shows "\<exists>b f n.
           get_exchange hc c hs s serverId slot
             = (case inputData_c hc (c\<lparr>m_buffer_c := b\<rparr>) f n of
                  (r, h, ev) \<Rightarrow> ([ok, ok, r], h, ev))
           \<and> unat HeaderSize + 2 \<le> unat n \<and> checkCRC16 f n
           \<and> read_le32 f FrameServerId = serverId
           \<and> f ! FrameSlotId = sd_slotId (m_serveSlots c ! unat slot)
           \<and> f ! FrameFunction = GetResp
           \<and> unat n - unat HeaderSize - 2 = unat (cs_size (m_clientSlots s ! j))
           \<and> take (unat (cs_size (m_clientSlots s ! j))) (drop FrameData f)
               = load hs (cs_data (m_clientSlots s ! j)) (unat (cs_size (m_clientSlots s ! j)))"
proof -
  let ?K = "sd_slotId (m_serveSlots c ! unat slot)"
  note rq = get_exchange_request [OF ca cbc idx]
  let ?b1 = "fst (genCRC16 ((write_le32 (m_buffer_c c) FrameServerId serverId)
                      [FrameSlotId := ?K, FrameFunction := GetReq]) HeaderSize)"
  let ?f1 = "take (unat (HeaderSize + 2)) ?b1"
  have v: "unat HeaderSize + 2 \<le> unat (HeaderSize + 2)" "checkCRC16 ?f1 (HeaderSize + 2)"
    "read_le32 ?f1 FrameServerId = m_serverId s" "?f1 ! FrameFunction = GetReq"
    using rq(2,3,4,6) sid by simp_all
  have fs1: "first_slot s (?f1 ! FrameSlotId) j"
    using fs rq(5) by simp
  note rs = get_exchange_response [OF sa cbs v fs1]
  let ?p = "cs_size (m_clientSlots s ! j)"
  let ?len = "(ucast ((ucast HeaderSize :: u16) + ucast ?p) :: u8)"
  let ?b2 = "fst (genCRC16
                   (memcpy_to_buf
                      ((write_le32 (m_buffer_s s) FrameServerId (m_serverId s))
                         [FrameSlotId := ?f1 ! FrameSlotId, FrameFunction := GetResp])
                      FrameData (load hs (cs_data (m_clientSlots s ! j)) (unat ?p)))
                   ?len)"
  let ?f2 = "take (unat (?len + 2)) ?b2"
  have "get_exchange hc c hs s serverId slot
          = (case inputData_c hc (c\<lparr>m_buffer_c := ?b1\<rparr>) ?f2 (?len + 2) of
               (r, h, ev) \<Rightarrow> ([ok, ok, r], h, ev))"
    by (simp add: get_exchange_def rq(1) rs(1) case_prod_unfold)
  moreover have "unat HeaderSize + 2 \<le> unat (?len + 2)" "checkCRC16 ?f2 (?len + 2)"
    "read_le32 ?f2 FrameServerId = serverId" "?f2 ! FrameSlotId = ?K"
    "?f2 ! FrameFunction = GetResp" "unat (?len + 2) - unat HeaderSize - 2 = unat ?p"
    "take (unat ?p) (drop FrameData ?f2) = load hs (cs_data (m_clientSlots s ! j)) (unat ?p)"
    using rs(2-8) sid rq(5) by simp_all
  ultimately show ?thesis
    by blast
qed

lemma get_exchange_applied:
  fixes c :: SyncBusClient and s :: SyncBusServer and serverId :: u32 and slot :: u8
  assumes ca: "client_arrays c" "client_table_ok c" and cbc: "m_sendData_cb_c c"
    and idx: "slot < m_numSlots_c c"
    and sa: "server_arrays s" "server_table_ok s" and cbs: "m_sendData_cb_s s"
    and sid: "m_serverId s = serverId"
    and fs: "first_slot s (sd_slotId (m_serveSlots c ! unat slot)) j"
    and fb: "first_binding c serverId (sd_slotId (m_serveSlots c ! unat slot)) i"
    and eq: "sd_size (m_serveSlots c ! i) = cs_size (m_clientSlots s ! j)"
  shows "get_exchange hc c hs s serverId slot
           = ([ok, ok, ok],
              memcpy_to_mem hc (sd_data (m_serveSlots c ! i))
                (load hs (cs_data (m_clientSlots s ! j)) (unat (cs_size (m_clientSlots s ! j)))),
              call_dataChanged_cb (m_dataChanged_cb_c c)
                (sd_slotId (m_serveSlots c ! unat slot)))"
proof -
  from get_exchange_steps [OF ca cbc idx sa cbs sid fs, of hc hs]
  obtain b f n where e: "get_exchange hc c hs s serverId slot
             = (case inputData_c hc (c\<lparr>m_buffer_c := b\<rparr>) f n of
                  (r, h, ev) \<Rightarrow> ([ok, ok, r], h, ev))"
    and v: "unat HeaderSize + 2 \<le> unat n" "checkCRC16 f n" "f ! FrameFunction = GetResp"
    and id: "read_le32 f FrameServerId = serverId"
      "f ! FrameSlotId = sd_slotId (m_serveSlots c ! unat slot)"
    and len: "unat n - unat HeaderSize - 2 = unat (cs_size (m_clientSlots s ! j))"
    and pl: "take (unat (cs_size (m_clientSlots s ! j))) (drop FrameData f)
               = load hs (cs_data (m_clientSlots s ! j)) (unat (cs_size (m_clientSlots s ! j)))"
    by blast
  have fb1: "first_binding (c\<lparr>m_buffer_c := b\<rparr>) (read_le32 f FrameServerId) (f ! FrameSlotId) i"
    using fb id by simp
  have len1: "unat n - unat HeaderSize - 2
                = unat (sd_size (m_serveSlots (c\<lparr>m_buffer_c := b\<rparr>) ! i))"
    using len eq by simp
  show ?thesis
    using inputData_c_GetResp [OF v fb1 len1, of hc] id pl eq
    by (simp add: e)
qed

lemma get_exchange_ignored:
  fixes c :: SyncBusClient and s :: SyncBusServer and serverId :: u32 and slot :: u8
  assumes ca: "client_arrays c" "client_table_ok c" and cbc: "m_sendData_cb_c c"
    and idx: "slot < m_numSlots_c c"
    and sa: "server_arrays s" "server_table_ok s" and cbs: "m_sendData_cb_s s"
    and sid: "m_serverId s = serverId"
    and fs: "first_slot s (sd_slotId (m_serveSlots c ! unat slot)) j"
    and nb: "no_binding c serverId (sd_slotId (m_serveSlots c ! unat slot))"
  shows "get_exchange hc c hs s serverId slot = ([ok, ok, ok], hc, [])"
proof -
  from get_exchange_steps [OF ca cbc idx sa cbs sid fs, of hc hs]
  obtain b f n where e: "get_exchange hc c hs s serverId slot
             = (case inputData_c hc (c\<lparr>m_buffer_c := b\<rparr>) f n of
                  (r, h, ev) \<Rightarrow> ([ok, ok, r], h, ev))"
    and v: "unat HeaderSize + 2 \<le> unat n" "checkCRC16 f n" "f ! FrameFunction = GetResp"
    and id: "read_le32 f FrameServerId = serverId"
      "f ! FrameSlotId = sd_slotId (m_serveSlots c ! unat slot)"
    by blast
  have nb1: "no_binding (c\<lparr>m_buffer_c := b\<rparr>) (read_le32 f FrameServerId) (f ! FrameSlotId)"
    using nb id by simp
  show ?thesis
    using inputData_c_unmatched [OF v nb1, of hc] by (simp add: e)
qed

subsection \<open>The example states\<close>

text \<open>The example states are what the constructors and two registrations leave.\<close>

lemma replicate_4: "replicate 4 x = [x, x, x, x]"
  by (simp add: eval_nat_numeral)

lemma example_states_registered:
  "g_client
     = snd (addData
         (snd (addData
            (SyncBusClient_new 4 True True
               (replicate 4 \<lparr>sd_data = 0, sd_serverId = 0, sd_slotId = 0, sd_size = 0\<rparr>)
               (replicate 64 0))
            200 kServerId 1 1))
         204 kServerId 2 4)"
  "g_client_twice
     = snd (addData
         (snd (addData
            (SyncBusClient_new 4 True True
               (replicate 4 \<lparr>sd_data = 0, sd_serverId = 0, sd_slotId = 0, sd_size = 0\<rparr>)
               (replicate 64 0))
            200 kServerId 2 4))
         204 kServerId 2 4)"
  "g_server
     = snd (addSlot
         (snd (addSlot
            (SyncBusServer_new 4 kServerId True True
               (replicate 4 \<lparr>cs_data = 0, cs_slotId = 0, cs_size = 0\<rparr>) (replicate 64 0))
            100 1 1))
         104 2 4)"
  "g_server_twice
     = snd (addSlot
         (snd (addSlot
            (SyncBusServer_new 4 kServerId True True
               (replicate 4 \<lparr>cs_data = 0, cs_slotId = 0, cs_size = 0\<rparr>) (replicate 64 0))
            100 2 4))
         104 2 4)"
  "g_server_resized
     = snd (addSlot
         (snd (addSlot
            (SyncBusServer_new 4 kServerId True True
               (replicate 4 \<lparr>cs_data = 0, cs_slotId = 0, cs_size = 0\<rparr>) (replicate 64 0))
            100 2 4))
         104 2 1)"
  by (simp_all add: g_client_def g_client_twice_def g_server_def g_server_twice_def
        g_server_resized_def addData_def addSlot_def SyncBusClient_new_def SyncBusServer_new_def
        layout_defs replicate_4 word_le_nat_alt)

lemma example_states_ok:
  "client_arrays g_client" "client_table_ok g_client"
  "server_arrays g_server" "server_table_ok g_server"
  by (simp_all add: client_arrays_def client_table_ok_def server_arrays_def server_table_ok_def
        g_client_def g_server_def layout_defs)

lemma frame_GetResp_2_valid: "checkCRC16 frame_GetResp_2 12"
  by (simp add: crc_eval frame_GetResp_2_def)

lemma more_states_ok:
  "server_arrays g_server_twice" "server_table_ok g_server_twice"
  "server_arrays g_server_resized" "server_table_ok g_server_resized"
  "client_arrays g_client_twice" "client_table_ok g_client_twice"
  by (simp_all add: client_arrays_def client_table_ok_def server_arrays_def server_table_ok_def
        g_client_def g_server_def g_server_twice_def g_server_resized_def g_client_twice_def
        layout_defs)

lemma frame_SetReq_foreign_short_valid: "checkCRC16 frame_SetReq_foreign_short 10"
  by (simp add: crc_eval frame_SetReq_foreign_short_def)


section \<open>Properties\<close>

subsection \<open>Checksum\<close>

text \<open>
  \<^bold>\<open>C1\<close> Checksum round-trip and single-bit error detection. For a transmit
  buffer whose first \<open>L\<close> bytes are any byte sequence, with
  \<open>6 \<le> L \<le> capacity - 2\<close>: \<^verbatim>\<open>genCRC16\<close> returns \<open>L + 2\<close>, and \<^verbatim>\<open>checkCRC16\<close>
  on what it produced succeeds; after flipping any one bit \<open>k\<close> of any one byte \<open>i\<close>
  among the \<open>L\<close> bytes and the two checksum bytes, \<^verbatim>\<open>checkCRC16\<close> fails; and
  \<^verbatim>\<open>checkCRC16\<close> fails for every length below 2.
\<close>

theorem checksum_roundtrip_and_bit_flips:
  assumes "length b = PROTO_BUS_BUFFER_SIZE"
    and "6 \<le> unat L" and "unat L \<le> PROTO_BUS_BUFFER_SIZE - 2"
  shows "snd (genCRC16 b L) = L + 2
       \<and> checkCRC16 (fst (genCRC16 b L)) (snd (genCRC16 b L))
       \<and> (\<forall>i < unat L + 2. \<forall>k < 8.
            \<not> checkCRC16 ((fst (genCRC16 b L))[i := flip_bit k (fst (genCRC16 b L) ! i)])
                (snd (genCRC16 b L)))
       \<and> (\<forall>buff len. len < 2 \<longrightarrow> \<not> checkCRC16 buff len)"
proof -
  have room: "unat L + 2 \<le> length b" and len: "unat L \<le> 253"
    using assms by (simp_all add: PROTO_BUS_BUFFER_SIZE_def)
  have n: "snd (genCRC16 b L) = L + 2"
    by (simp add: genCRC16_eq)
  have "checkCRC16 (fst (genCRC16 b L)) (L + 2)"
    by (rule checkCRC16_genCRC16 [OF room len])
  moreover have "\<not> checkCRC16 ((fst (genCRC16 b L))[i := flip_bit k (fst (genCRC16 b L) ! i)]) (L + 2)"
    if "i < unat L + 2" "k < 8" for i k
    using that by (intro checkCRC16_detects_byte [OF room len] flip_bit_neq)
  moreover have "\<not> checkCRC16 buff len" if "len < 2" for buff len
    using that by (simp add: checkCRC16_def)
  ultimately show ?thesis
    unfolding n by blast
qed

theorem checksum_roundtrip_and_bit_flips_witness:
  "length ([0x78, 0x56, 0x34, 0x12, 2, 0] @ replicate 58 (0::u8)) = PROTO_BUS_BUFFER_SIZE
   \<and> 6 \<le> unat (6::u8) \<and> unat (6::u8) \<le> PROTO_BUS_BUFFER_SIZE - 2
   \<and> checkCRC16 (fst (genCRC16 ([0x78, 0x56, 0x34, 0x12, 2, 0] @ replicate 58 0) 6))
         (snd (genCRC16 ([0x78, 0x56, 0x34, 0x12, 2, 0] @ replicate 58 0) 6))
   \<and> \<not> checkCRC16
         ((fst (genCRC16 ([0x78, 0x56, 0x34, 0x12, 2, 0] @ replicate 58 0) 6))
            [4 := flip_bit 1
                    (fst (genCRC16 ([0x78, 0x56, 0x34, 0x12, 2, 0] @ replicate 58 0) 6) ! 4)])
         (snd (genCRC16 ([0x78, 0x56, 0x34, 0x12, 2, 0] @ replicate 58 0) 6))"
proof -
  let ?b = "[0x78, 0x56, 0x34, 0x12, 2, 0] @ replicate 58 (0::u8)"
  have h1: "length ?b = PROTO_BUS_BUFFER_SIZE"
    by (simp add: PROTO_BUS_BUFFER_SIZE_def)
  have h2: "6 \<le> unat (6::u8)"
    by simp
  have h3: "unat (6::u8) \<le> PROTO_BUS_BUFFER_SIZE - 2"
    by (simp add: PROTO_BUS_BUFFER_SIZE_def)
  note t = checksum_roundtrip_and_bit_flips [OF h1 h2 h3]
  from t have a: "checkCRC16 (fst (genCRC16 ?b 6)) (snd (genCRC16 ?b 6))"
    by blast
  from t have "\<forall>i < unat (6::u8) + 2. \<forall>k < 8.
      \<not> checkCRC16 ((fst (genCRC16 ?b 6))[i := flip_bit k (fst (genCRC16 ?b 6) ! i)])
          (snd (genCRC16 ?b 6))"
    by blast
  moreover have "(4::nat) < unat (6::u8) + 2"
    by simp
  moreover have "(1::nat) < 8"
    by simp
  ultimately have b: "\<not> checkCRC16
      ((fst (genCRC16 ?b 6))[4 := flip_bit 1 (fst (genCRC16 ?b 6) ! 4)]) (snd (genCRC16 ?b 6))"
    by blast
  from h1 h2 h3 a b show ?thesis
    by blast
qed

subsection \<open>End-to-end GET\<close>

text \<open>
  \<^bold>\<open>C2\<close> End-to-end GET identity. A server with identifier \<open>S\<close> and a client, both
  with arrays and tables as the constructor and the registrations leave them, both with
  a send callback, the client with a change-notification callback. If the first slot
  with slot id \<open>K\<close> in the server's table has size \<open>N\<close> and buffer content \<open>X\<close>, and
  the client's binding at index \<open>slot\<close> is its first binding for \<open>(S, K)\<close> and has size
  \<open>N\<close>, then a GET over the wiring (\<^verbatim>\<open>getData\<close> with \<open>S\<close> and \<open>slot\<close>, the server's
  \<^verbatim>\<open>inputData\<close> on the request, the client's \<^verbatim>\<open>inputData\<close> on the response)
  returns \<^verbatim>\<open>ok\<close> from all three calls, leaves the buffer of that binding equal to
  \<open>X\<close>, and invokes the client's change notification once, with \<open>K\<close>.
\<close>

theorem end_to_end_get:
  assumes "client_arrays c" and "client_table_ok c"
    and "server_arrays s" and "server_table_ok s"
    and "m_sendData_cb_c c" and "m_sendData_cb_s s" and "m_dataChanged_cb_c c"
    and "m_serverId s = S"
    and "first_slot s K j" and "cs_size (m_clientSlots s ! j) = N"
    and "load hs (cs_data (m_clientSlots s ! j)) (unat N) = X"
    and "first_binding c S K (unat slot)" and "sd_size (m_serveSlots c ! unat slot) = N"
  shows "fst (get_exchange hc c hs s S slot) = [ok, ok, ok]
       \<and> load (fst (snd (get_exchange hc c hs s S slot)))
            (sd_data (m_serveSlots c ! unat slot)) (unat N) = X
       \<and> snd (snd (get_exchange hc c hs s S slot)) = [Changed K]"
proof -
  have idx: "slot < m_numSlots_c c" and k: "sd_slotId (m_serveSlots c ! unat slot) = K"
    using assms(12) by (simp_all add: first_binding_def binding_matches_def word_less_nat_alt)
  have fs: "first_slot s (sd_slotId (m_serveSlots c ! unat slot)) j"
    using assms(9) k by simp
  have fb: "first_binding c S (sd_slotId (m_serveSlots c ! unat slot)) (unat slot)"
    using assms(12) k by simp
  have eq: "sd_size (m_serveSlots c ! unat slot) = cs_size (m_clientSlots s ! j)"
    using assms(10,13) by simp
  have lx: "length X = unat N"
    using assms(11) by (auto simp add: length_load)
  note e = get_exchange_applied [OF assms(1,2,5) idx assms(3,4,6,8) fs fb eq, of hc hs]
  show ?thesis
    using assms(7,10,11) k load_memcpy_to_mem [of hc "sd_data (m_serveSlots c ! unat slot)" X]
    by (simp add: e call_dataChanged_cb_def lx)
qed

theorem end_to_end_get_witness:
  "client_arrays g_client \<and> client_table_ok g_client
   \<and> server_arrays g_server \<and> server_table_ok g_server
   \<and> m_sendData_cb_c g_client \<and> m_sendData_cb_s g_server \<and> m_dataChanged_cb_c g_client
   \<and> m_serverId g_server = kServerId
   \<and> first_slot g_server 2 1 \<and> cs_size (m_clientSlots g_server ! 1) = 4
   \<and> load ex_memory (cs_data (m_clientSlots g_server ! 1)) (unat (4::u8)) = [104, 105, 106, 107]
   \<and> first_binding g_client kServerId 2 (unat (1::u8))
   \<and> sd_size (m_serveSlots g_client ! unat (1::u8)) = 4
   \<and> fst (get_exchange ex_memory g_client ex_memory g_server kServerId 1) = [ok, ok, ok]
   \<and> load (fst (snd (get_exchange ex_memory g_client ex_memory g_server kServerId 1)))
         (sd_data (m_serveSlots g_client ! unat (1::u8))) (unat (4::u8)) = [104, 105, 106, 107]
   \<and> snd (snd (get_exchange ex_memory g_client ex_memory g_server kServerId 1)) = [Changed 2]"
proof -
  have h: "m_sendData_cb_c g_client" "m_sendData_cb_s g_server" "m_dataChanged_cb_c g_client"
    "m_serverId g_server = kServerId"
    "first_slot g_server 2 1" "cs_size (m_clientSlots g_server ! 1) = 4"
    "load ex_memory (cs_data (m_clientSlots g_server ! 1)) (unat (4::u8)) = [104, 105, 106, 107]"
    "first_binding g_client kServerId 2 (unat (1::u8))"
    "sd_size (m_serveSlots g_client ! unat (1::u8)) = 4"
    by (simp_all add: g_client_def g_server_def table_defs load_4 ex_memory_def)
  from end_to_end_get [OF example_states_ok h, of ex_memory] example_states_ok h
  show ?thesis
    by blast
qed

text \<open>
  Both scans stop at the first match, so the identity is one of the first entries.
  With slot 2 registered twice at the server, the entry at index 1 has slot id 2,
  size 4 and content 104 to 107, the client has a binding for it of size 4, and the GET
  leaves the client's buffer with the content of the entry at index 0 (100 to 103).
  With two bindings for slot 2 of the same server at the client, the GET issued for
  the binding at index 1 writes the buffer of the binding at index 0, and the buffer
  of the binding at index 1 keeps its content (204 to 207).
\<close>

theorem end_to_end_get_counterexample:
  "g_server_twice
     = snd (addSlot
         (snd (addSlot
            (SyncBusServer_new 4 kServerId True True
               (replicate 4 \<lparr>cs_data = 0, cs_slotId = 0, cs_size = 0\<rparr>) (replicate 64 0))
            100 2 4))
         104 2 4)
   \<and> g_client_twice
     = snd (addData
         (snd (addData
            (SyncBusClient_new 4 True True
               (replicate 4 \<lparr>sd_data = 0, sd_serverId = 0, sd_slotId = 0, sd_size = 0\<rparr>)
               (replicate 64 0))
            200 kServerId 2 4))
         204 kServerId 2 4)
   \<and> (1::nat) < unat (m_numSlots_s g_server_twice)
   \<and> cs_slotId (m_clientSlots g_server_twice ! 1) = 2
   \<and> cs_size (m_clientSlots g_server_twice ! 1) = 4
   \<and> load ex_memory (cs_data (m_clientSlots g_server_twice ! 1)) 4 = [104, 105, 106, 107]
   \<and> m_serverId g_server_twice = kServerId
   \<and> (1::u8) < m_numSlots_c g_client
   \<and> sd_serverId (m_serveSlots g_client ! 1) = kServerId
   \<and> sd_slotId (m_serveSlots g_client ! 1) = 2 \<and> sd_size (m_serveSlots g_client ! 1) = 4
   \<and> load (fst (snd (get_exchange ex_memory g_client ex_memory g_server_twice kServerId 1)))
         (sd_data (m_serveSlots g_client ! 1)) 4 \<noteq> [104, 105, 106, 107]
   \<and> (1::u8) < m_numSlots_c g_client_twice
   \<and> sd_serverId (m_serveSlots g_client_twice ! 1) = kServerId
   \<and> sd_slotId (m_serveSlots g_client_twice ! 1) = 2
   \<and> sd_size (m_serveSlots g_client_twice ! 1) = 4
   \<and> cs_slotId (m_clientSlots g_server ! 1) = 2 \<and> cs_size (m_clientSlots g_server ! 1) = 4
   \<and> load ex_memory (cs_data (m_clientSlots g_server ! 1)) 4 = [104, 105, 106, 107]
   \<and> load (fst (snd (get_exchange ex_memory g_client_twice ex_memory g_server kServerId 1)))
         (sd_data (m_serveSlots g_client_twice ! 1)) 4 \<noteq> [104, 105, 106, 107]"
proof -
  have st: "(1::nat) < unat (m_numSlots_s g_server_twice)"
    "cs_slotId (m_clientSlots g_server_twice ! 1) = 2"
    "cs_size (m_clientSlots g_server_twice ! 1) = 4"
    "load ex_memory (cs_data (m_clientSlots g_server_twice ! 1)) 4 = [104, 105, 106, 107]"
    "m_serverId g_server_twice = kServerId"
    "(1::u8) < m_numSlots_c g_client"
    "sd_serverId (m_serveSlots g_client ! 1) = kServerId"
    "sd_slotId (m_serveSlots g_client ! 1) = 2" "sd_size (m_serveSlots g_client ! 1) = 4"
    "(1::u8) < m_numSlots_c g_client_twice"
    "sd_serverId (m_serveSlots g_client_twice ! 1) = kServerId"
    "sd_slotId (m_serveSlots g_client_twice ! 1) = 2"
    "sd_size (m_serveSlots g_client_twice ! 1) = 4"
    "cs_slotId (m_clientSlots g_server ! 1) = 2" "cs_size (m_clientSlots g_server ! 1) = 4"
    "load ex_memory (cs_data (m_clientSlots g_server ! 1)) 4 = [104, 105, 106, 107]"
    by (simp_all add: g_client_def g_server_def g_server_twice_def g_client_twice_def load_4
          ex_memory_def)
  have a: "m_sendData_cb_c g_client" "m_sendData_cb_s g_server_twice"
    "first_slot g_server_twice (sd_slotId (m_serveSlots g_client ! unat (1::u8))) 0"
    "first_binding g_client kServerId (sd_slotId (m_serveSlots g_client ! unat (1::u8))) 1"
    "sd_size (m_serveSlots g_client ! 1) = cs_size (m_clientSlots g_server_twice ! 0)"
    by (simp_all add: g_client_def g_server_def g_server_twice_def table_defs)
  have "get_exchange ex_memory g_client ex_memory g_server_twice kServerId 1
          = ([ok, ok, ok], memcpy_to_mem ex_memory 204 [100, 101, 102, 103], [Changed 2])"
    using get_exchange_applied [OF example_states_ok(1,2) a(1) st(6) more_states_ok(1,2) a(2)
        st(5) a(3,4,5), of ex_memory ex_memory]
    by (simp add: g_client_def g_server_def g_server_twice_def load_4 ex_memory_def
          call_dataChanged_cb_def)
  then have c1: "load (fst (snd (get_exchange ex_memory g_client ex_memory g_server_twice
                                   kServerId 1)))
                   (sd_data (m_serveSlots g_client ! 1)) 4 \<noteq> [104, 105, 106, 107]"
    by (simp add: g_client_def load_4 memcpy_to_mem_def)
  have b: "m_sendData_cb_c g_client_twice" "m_sendData_cb_s g_server"
    "m_serverId g_server = kServerId"
    "first_slot g_server (sd_slotId (m_serveSlots g_client_twice ! unat (1::u8))) 1"
    "first_binding g_client_twice kServerId
       (sd_slotId (m_serveSlots g_client_twice ! unat (1::u8))) 0"
    "sd_size (m_serveSlots g_client_twice ! 0) = cs_size (m_clientSlots g_server ! 1)"
    by (simp_all add: g_client_def g_server_def g_client_twice_def table_defs)
  have "get_exchange ex_memory g_client_twice ex_memory g_server kServerId 1
          = ([ok, ok, ok], memcpy_to_mem ex_memory 200 [104, 105, 106, 107], [Changed 2])"
    using get_exchange_applied [OF more_states_ok(5,6) b(1) st(10) example_states_ok(3,4) b(2)
        b(3) b(4,5,6), of ex_memory ex_memory]
    by (simp add: g_client_def g_server_def g_client_twice_def load_4 ex_memory_def
          call_dataChanged_cb_def)
  then have c2: "load (fst (snd (get_exchange ex_memory g_client_twice ex_memory g_server
                                   kServerId 1)))
                   (sd_data (m_serveSlots g_client_twice ! 1)) 4 \<noteq> [104, 105, 106, 107]"
    by (simp add: g_client_def g_client_twice_def load_4 memcpy_to_mem_def ex_memory_def)
  from example_states_registered(2,4) st c1 c2 show ?thesis
    by blast
qed

subsection \<open>Size mismatch\<close>

text \<open>
  \<^bold>\<open>C3\<close> Size mismatch rejection with atomicity. For every frame of at least 8 bytes
  with a valid checksum: a \<^verbatim>\<open>GetResp\<close> at the client whose server id and slot id
  match a registered binding, \<open>j\<close> being the first that matches, or a \<^verbatim>\<open>SetReq\<close> at the
  server that carries the server's own identifier and whose slot id matches a registered
  slot, \<open>i\<close> being the first that matches, with a payload length (length minus header
  minus 2) that is not the size of that entry, makes \<^verbatim>\<open>inputData\<close> return
  \<^verbatim>\<open>errFault\<close>; the memory is unchanged, no change notification is made and nothing
  is sent.
\<close>

theorem size_mismatch_rejected:
  "(unat HeaderSize + 2 \<le> unat sz \<and> checkCRC16 data sz \<longrightarrow>
      (data ! FrameFunction = GetResp
         \<and> first_binding c (read_le32 data FrameServerId) (data ! FrameSlotId) j
         \<and> unat sz - unat HeaderSize - 2 \<noteq> unat (sd_size (m_serveSlots c ! j)) \<longrightarrow>
       inputData_c h c data sz = (errFault, h, []))
      \<and> (read_le32 data FrameServerId = m_serverId s \<and> data ! FrameFunction = SetReq
         \<and> first_slot s (data ! FrameSlotId) i
         \<and> unat sz - unat HeaderSize - 2 \<noteq> unat (cs_size (m_clientSlots s ! i)) \<longrightarrow>
       inputData_s h s data sz = (errFault, h, s, [])))"
proof (intro impI conjI; elim conjE)
  assume sz: "unat HeaderSize + 2 \<le> unat sz" and crc: "checkCRC16 data sz"
    and f: "data ! FrameFunction = GetResp"
    and fb: "first_binding c (read_le32 data FrameServerId) (data ! FrameSlotId) j"
    and ne: "unat sz - unat HeaderSize - 2 \<noteq> unat (sd_size (m_serveSlots c ! j))"
  have j: "unat (of_nat j :: u8) = j"
    using fb by (auto simp add: first_binding_def intro: unat_of_nat_u8)
  have "sz - HeaderSize - 2 \<noteq> sd_size (m_serveSlots c ! j)"
    using ne unat_payloadLen [OF sz] by auto
  then show "inputData_c h c data sz = (errFault, h, [])"
    using size_ok [OF sz] crc f j
    by (simp add: inputData_c_def Let_def getResp_loop_first_binding [OF fb] getResp_apply_def)
next
  assume sz: "unat HeaderSize + 2 \<le> unat sz" and crc: "checkCRC16 data sz"
    and id: "read_le32 data FrameServerId = m_serverId s"
    and f: "data ! FrameFunction = SetReq"
    and fs: "first_slot s (data ! FrameSlotId) i"
    and ne: "unat sz - unat HeaderSize - 2 \<noteq> unat (cs_size (m_clientSlots s ! i))"
  have i: "unat (of_nat i :: u8) = i"
    using fs by (auto simp add: first_slot_def intro: unat_of_nat_u8)
  have "sz - HeaderSize - 2 \<noteq> cs_size (m_clientSlots s ! i)"
    using ne unat_payloadLen [OF sz] by auto
  then show "inputData_s h s data sz = (errFault, h, s, [])"
    using size_ok [OF sz] crc id f i
    by (simp add: inputData_s_def Let_def setReq_loop_first_slot [OF fs] setReq_apply_def
          SetReq_def GetReq_def)
qed

theorem size_mismatch_rejected_witness:
  "unat HeaderSize + 2 \<le> unat (10::u8)
   \<and> checkCRC16 frame_GetResp_2_short 10 \<and> frame_GetResp_2_short ! FrameFunction = GetResp
   \<and> first_binding g_client (read_le32 frame_GetResp_2_short FrameServerId)
        (frame_GetResp_2_short ! FrameSlotId) 1
   \<and> unat (10::u8) - unat HeaderSize - 2 \<noteq> unat (sd_size (m_serveSlots g_client ! 1))
   \<and> inputData_c ex_memory g_client frame_GetResp_2_short 10 = (errFault, ex_memory, [])
   \<and> checkCRC16 frame_SetReq_2_short 10 \<and> frame_SetReq_2_short ! FrameFunction = SetReq
   \<and> read_le32 frame_SetReq_2_short FrameServerId = m_serverId g_server
   \<and> first_slot g_server (frame_SetReq_2_short ! FrameSlotId) 1
   \<and> unat (10::u8) - unat HeaderSize - 2 \<noteq> unat (cs_size (m_clientSlots g_server ! 1))
   \<and> inputData_s ex_memory g_server frame_SetReq_2_short 10
       = (errFault, ex_memory, g_server, [])"
proof -
  have h: "unat HeaderSize + 2 \<le> unat (10::u8)"
    "frame_GetResp_2_short ! FrameFunction = GetResp"
    "first_binding g_client (read_le32 frame_GetResp_2_short FrameServerId)
        (frame_GetResp_2_short ! FrameSlotId) 1"
    "unat (10::u8) - unat HeaderSize - 2 \<noteq> unat (sd_size (m_serveSlots g_client ! 1))"
    "frame_SetReq_2_short ! FrameFunction = SetReq"
    "read_le32 frame_SetReq_2_short FrameServerId = m_serverId g_server"
    "first_slot g_server (frame_SetReq_2_short ! FrameSlotId) 1"
    "unat (10::u8) - unat HeaderSize - 2 \<noteq> unat (cs_size (m_clientSlots g_server ! 1))"
    by (simp_all add: ex_defs layout_defs table_defs read_le32_def)
  from h frames_valid
    size_mismatch_rejected [where sz = 10 and data = frame_GetResp_2_short and c = g_client
      and h = ex_memory and s = g_server and j = 1 and i = 1]
    size_mismatch_rejected [where sz = 10 and data = frame_SetReq_2_short and c = g_client
      and h = ex_memory and s = g_server and j = 1 and i = 1]
  show ?thesis
    by simp
qed

text \<open>
  The server compares sizes only for a frame with its own identifier, and both sides
  compare with the first matching entry only. The example server has slot 2 with four
  bytes: a \<^verbatim>\<open>SetReq\<close> for server 1 and slot 2 with two bytes of payload is filtered
  out and returns \<^verbatim>\<open>ok\<close>, not \<^verbatim>\<open>errFault\<close>. With slot 2 registered with four bytes
  and then with one byte, a \<^verbatim>\<open>SetReq\<close> with four bytes of payload matches the second
  entry in slot id and differs from it in size, and it is applied to the first: the
  call returns \<^verbatim>\<open>ok\<close>, the buffer at 100 is written, the change notification is made
  and the acknowledgement is sent.
\<close>

theorem size_mismatch_rejected_counterexample:
  "g_server_resized
     = snd (addSlot
         (snd (addSlot
            (SyncBusServer_new 4 kServerId True True
               (replicate 4 \<lparr>cs_data = 0, cs_slotId = 0, cs_size = 0\<rparr>) (replicate 64 0))
            100 2 4))
         104 2 1)
   \<and> checkCRC16 frame_SetReq_foreign_short 10
   \<and> frame_SetReq_foreign_short ! FrameFunction = SetReq
   \<and> (1::nat) < unat (m_numSlots_s g_server)
   \<and> cs_slotId (m_clientSlots g_server ! 1) = frame_SetReq_foreign_short ! FrameSlotId
   \<and> unat (10::u8) - unat HeaderSize - 2 \<noteq> unat (cs_size (m_clientSlots g_server ! 1))
   \<and> inputData_s ex_memory g_server frame_SetReq_foreign_short 10
       = (ok, ex_memory, g_server, [])
   \<and> checkCRC16 frame_SetReq_2 12 \<and> frame_SetReq_2 ! FrameFunction = SetReq
   \<and> read_le32 frame_SetReq_2 FrameServerId = m_serverId g_server_resized
   \<and> (1::nat) < unat (m_numSlots_s g_server_resized)
   \<and> cs_slotId (m_clientSlots g_server_resized ! 1) = frame_SetReq_2 ! FrameSlotId
   \<and> unat (12::u8) - unat HeaderSize - 2 \<noteq> unat (cs_size (m_clientSlots g_server_resized ! 1))
   \<and> fst (inputData_s ex_memory g_server_resized frame_SetReq_2 12) = ok
   \<and> fst (snd (inputData_s ex_memory g_server_resized frame_SetReq_2 12))
       = memcpy_to_mem ex_memory 100 [1, 2, 3, 4]
   \<and> snd (snd (snd (inputData_s ex_memory g_server_resized frame_SetReq_2 12)))
       = [Changed 2, Send frame_SetResp_2 8]"
proof -
  have st: "frame_SetReq_foreign_short ! FrameFunction = SetReq"
    "(1::nat) < unat (m_numSlots_s g_server)"
    "cs_slotId (m_clientSlots g_server ! 1) = frame_SetReq_foreign_short ! FrameSlotId"
    "unat (10::u8) - unat HeaderSize - 2 \<noteq> unat (cs_size (m_clientSlots g_server ! 1))"
    "frame_SetReq_2 ! FrameFunction = SetReq"
    "read_le32 frame_SetReq_2 FrameServerId = m_serverId g_server_resized"
    "(1::nat) < unat (m_numSlots_s g_server_resized)"
    "cs_slotId (m_clientSlots g_server_resized ! 1) = frame_SetReq_2 ! FrameSlotId"
    "unat (12::u8) - unat HeaderSize - 2 \<noteq> unat (cs_size (m_clientSlots g_server_resized ! 1))"
    by (simp_all add: g_server_def g_server_resized_def frame_SetReq_foreign_short_def
          frame_SetReq_2_def layout_defs read_le32_def kServerId_def)
  have "read_le32 frame_SetReq_foreign_short FrameServerId \<noteq> m_serverId g_server"
    by (simp add: g_server_def frame_SetReq_foreign_short_def layout_defs read_le32_def
          kServerId_def)
  then have a: "inputData_s ex_memory g_server frame_SetReq_foreign_short 10
                  = (ok, ex_memory, g_server, [])"
    using frame_SetReq_foreign_short_valid
    by (simp add: inputData_s_def Let_def HeaderSize_def)
  have v: "unat HeaderSize + 2 \<le> unat (12::u8)"
    "first_slot g_server_resized (frame_SetReq_2 ! FrameSlotId) 0"
    "unat (12::u8) - unat HeaderSize - 2 = unat (cs_size (m_clientSlots g_server_resized ! 0))"
    "m_sendData_cb_s g_server_resized" "m_dataChanged_cb_s g_server_resized"
    "length (m_buffer_s g_server_resized) = PROTO_BUS_BUFFER_SIZE"
    by (simp_all add: g_server_def g_server_resized_def frame_SetReq_2_def layout_defs
          table_defs)
  note e = inputData_s_SetReq [OF v(1) frames_valid(8) st(6,5) v(2,3), of ex_memory]
  have b1: "fst (inputData_s ex_memory g_server_resized frame_SetReq_2 12) = ok"
    by (simp add: e)
  have b2: "fst (snd (inputData_s ex_memory g_server_resized frame_SetReq_2 12))
              = memcpy_to_mem ex_memory 100 [1, 2, 3, 4]"
    unfolding e by (simp add: g_server_def g_server_resized_def frame_SetReq_2_def FrameData_def)
  have b3: "snd (snd (snd (inputData_s ex_memory g_server_resized frame_SetReq_2 12)))
              = [Changed 2, Send frame_SetResp_2 8]"
    using inputData_s_SetReq_events [OF v(6) v(1) frames_valid(8) st(6,5) v(2,3) v(4,5),
        of ex_memory]
    by (simp add: g_server_def g_server_resized_def frame_SetReq_2_def frame_SetResp_2_def
          frame_eval)
  from example_states_registered(5) st a b1 b2 b3 frame_SetReq_foreign_short_valid
    frames_valid(8)
  show ?thesis
    by blast
qed

subsection \<open>Foreign identifier\<close>

text \<open>
  \<^bold>\<open>C4\<close> Foreign identifier filtering. For every frame of at least 8 bytes with a valid
  checksum whose little-endian 32-bit identifier is not the server's own, the server's
  \<^verbatim>\<open>inputData\<close> returns \<^verbatim>\<open>ok\<close>, invokes neither callback and leaves the memory and
  the server object as they were.
\<close>

theorem foreign_identifier_filtered:
  assumes "unat HeaderSize + 2 \<le> unat sz" and "checkCRC16 data sz"
    and "read_le32 data FrameServerId \<noteq> m_serverId s"
  shows "inputData_s h s data sz = (ok, h, s, [])"
proof -
  have "\<not> sz < HeaderSize + 2"
    using assms(1) by (simp add: HeaderSize_def word_less_nat_alt)
  then show ?thesis
    using assms(2,3) by (simp add: inputData_s_def Let_def)
qed

theorem foreign_identifier_filtered_witness:
  "unat HeaderSize + 2 \<le> unat (8::u8) \<and> checkCRC16 frame_foreign 8
   \<and> read_le32 frame_foreign FrameServerId \<noteq> m_serverId g_server
   \<and> inputData_s ex_memory g_server frame_foreign 8 = (ok, ex_memory, g_server, [])"
proof -
  have h1: "unat HeaderSize + 2 \<le> unat (8::u8)"
    by (simp add: HeaderSize_def)
  have h2: "checkCRC16 frame_foreign 8"
    by (rule frames_valid)
  have h3: "read_le32 frame_foreign FrameServerId \<noteq> m_serverId g_server"
    by (simp add: frames_ids g_server_def kServerId_def)
  from foreign_identifier_filtered [OF h1 h2 h3, of ex_memory] h1 h2 h3 show ?thesis
    by blast
qed

subsection \<open>Registration\<close>

text \<open>
  \<^bold>\<open>C5\<close> Registration overflow boundary. For \<^verbatim>\<open>addData\<close> and for \<^verbatim>\<open>addSlot\<close>: with a
  buffer that is not null and a table that is not full, a size with
  header + size + 2 equal to the capacity is registered (the entry is written at the
  count and the count goes up by one), and a size with header + size + 2 one above the
  capacity gives \<^verbatim>\<open>errOverflow\<close> and leaves the object unchanged; a null buffer gives
  \<^verbatim>\<open>errFault\<close>; a full table (with a buffer that is not null) gives \<^verbatim>\<open>errOverflow\<close>.
\<close>

theorem registration_overflow_boundary:
  "(data \<noteq> nullptr \<and> m_numSlots_c c < numSlots_c c \<longrightarrow>
      (unat HeaderSize + unat sz + 2 = PROTO_BUS_BUFFER_SIZE \<longrightarrow>
         addData c data serverId slotId sz =
           (ok, c\<lparr>m_serveSlots := (m_serveSlots c)[unat (m_numSlots_c c) :=
                       \<lparr>sd_data = data, sd_serverId = serverId, sd_slotId = slotId,
                        sd_size = sz\<rparr>],
                   m_numSlots_c := m_numSlots_c c + 1\<rparr>))
      \<and> (unat HeaderSize + unat sz + 2 = PROTO_BUS_BUFFER_SIZE + 1 \<longrightarrow>
         addData c data serverId slotId sz = (errOverflow, c)))
   \<and> addData c nullptr serverId slotId sz = (errFault, c)
   \<and> (data \<noteq> nullptr \<and> numSlots_c c \<le> m_numSlots_c c \<longrightarrow>
         addData c data serverId slotId sz = (errOverflow, c))
   \<and> (data \<noteq> nullptr \<and> m_numSlots_s s < numSlots_s s \<longrightarrow>
      (unat HeaderSize + unat sz + 2 = PROTO_BUS_BUFFER_SIZE \<longrightarrow>
         addSlot s data slotId sz =
           (ok, s\<lparr>m_clientSlots := (m_clientSlots s)[unat (m_numSlots_s s) :=
                       \<lparr>cs_data = data, cs_slotId = slotId, cs_size = sz\<rparr>],
                   m_numSlots_s := m_numSlots_s s + 1\<rparr>))
      \<and> (unat HeaderSize + unat sz + 2 = PROTO_BUS_BUFFER_SIZE + 1 \<longrightarrow>
         addSlot s data slotId sz = (errOverflow, s)))
   \<and> addSlot s nullptr slotId sz = (errFault, s)
   \<and> (data \<noteq> nullptr \<and> numSlots_s s \<le> m_numSlots_s s \<longrightarrow>
         addSlot s data slotId sz = (errOverflow, s))"
  by (auto simp add: addData_def addSlot_def)

theorem registration_overflow_boundary_witness:
  "(200::nat) \<noteq> nullptr \<and> m_numSlots_c g_client < numSlots_c g_client
   \<and> m_numSlots_s g_server < numSlots_s g_server
   \<and> unat HeaderSize + unat (56::u8) + 2 = PROTO_BUS_BUFFER_SIZE
   \<and> unat HeaderSize + unat (57::u8) + 2 = PROTO_BUS_BUFFER_SIZE + 1
   \<and> fst (addData g_client 200 kServerId 3 56) = ok
   \<and> addData g_client 200 kServerId 3 57 = (errOverflow, g_client)
   \<and> fst (addSlot g_server 200 3 56) = ok
   \<and> addSlot g_server 200 3 57 = (errOverflow, g_server)
   \<and> numSlots_c (g_client\<lparr>m_numSlots_c := 4\<rparr>) \<le> m_numSlots_c (g_client\<lparr>m_numSlots_c := 4\<rparr>)
   \<and> addData (g_client\<lparr>m_numSlots_c := 4\<rparr>) 200 kServerId 3 1
       = (errOverflow, g_client\<lparr>m_numSlots_c := 4\<rparr>)
   \<and> numSlots_s (g_server\<lparr>m_numSlots_s := 4\<rparr>) \<le> m_numSlots_s (g_server\<lparr>m_numSlots_s := 4\<rparr>)
   \<and> addSlot (g_server\<lparr>m_numSlots_s := 4\<rparr>) 200 3 1
       = (errOverflow, g_server\<lparr>m_numSlots_s := 4\<rparr>)"
proof -
  have h: "(200::nat) \<noteq> nullptr" "m_numSlots_c g_client < numSlots_c g_client"
    "m_numSlots_s g_server < numSlots_s g_server"
    "unat HeaderSize + unat (56::u8) + 2 = PROTO_BUS_BUFFER_SIZE"
    "unat HeaderSize + unat (57::u8) + 2 = PROTO_BUS_BUFFER_SIZE + 1"
    "numSlots_c (g_client\<lparr>m_numSlots_c := 4\<rparr>) \<le> m_numSlots_c (g_client\<lparr>m_numSlots_c := 4\<rparr>)"
    "numSlots_s (g_server\<lparr>m_numSlots_s := 4\<rparr>) \<le> m_numSlots_s (g_server\<lparr>m_numSlots_s := 4\<rparr>)"
    by (simp_all add: nullptr_def g_client_def g_server_def HeaderSize_def
          PROTO_BUS_BUFFER_SIZE_def)
  from h
    registration_overflow_boundary [where data = 200 and c = g_client and s = g_server
      and sz = 56 and serverId = kServerId and slotId = 3]
    registration_overflow_boundary [where data = 200 and c = g_client and s = g_server
      and sz = 57 and serverId = kServerId and slotId = 3]
    registration_overflow_boundary [where data = 200 and c = "g_client\<lparr>m_numSlots_c := 4\<rparr>"
      and s = "g_server\<lparr>m_numSlots_s := 4\<rparr>" and sz = 1 and serverId = kServerId
      and slotId = 3]
  show ?thesis
    by simp
qed

subsection \<open>Error ladder\<close>

text \<open>
  \<^bold>\<open>C6\<close> Incoming-frame error ladder. For every frame and length, the client's and
  the server's \<^verbatim>\<open>inputData\<close> return \<^verbatim>\<open>errFault\<close> when the length is below header
  plus checksum (8 bytes), and otherwise \<^verbatim>\<open>errCrc\<close> when the checksum does not
  verify; in both cases the memory (and the server object) is what it was and no
  callback is invoked.
\<close>

theorem incoming_error_ladder:
  "(unat sz < unat HeaderSize + 2 \<longrightarrow>
      inputData_c h c data sz = (errFault, h, [])
      \<and> inputData_s h s data sz = (errFault, h, s, []))
   \<and> (unat HeaderSize + 2 \<le> unat sz \<and> \<not> checkCRC16 data sz \<longrightarrow>
      inputData_c h c data sz = (errCrc, h, [])
      \<and> inputData_s h s data sz = (errCrc, h, s, []))"
proof -
  have "sz < HeaderSize + 2 \<longleftrightarrow> unat sz < unat HeaderSize + 2"
    by (simp add: HeaderSize_def word_less_nat_alt)
  then show ?thesis
    by (auto simp add: inputData_c_def inputData_s_def)
qed

theorem incoming_error_ladder_witness:
  "unat (3::u8) < unat HeaderSize + 2
   \<and> inputData_c ex_memory g_client [1, 2, 3] 3 = (errFault, ex_memory, [])
   \<and> inputData_s ex_memory g_server [1, 2, 3] 3 = (errFault, ex_memory, g_server, [])
   \<and> unat HeaderSize + 2 \<le> unat (8::u8) \<and> \<not> checkCRC16 frame_bad_crc 8
   \<and> inputData_c ex_memory g_client frame_bad_crc 8 = (errCrc, ex_memory, [])
   \<and> inputData_s ex_memory g_server frame_bad_crc 8 = (errCrc, ex_memory, g_server, [])"
  using incoming_error_ladder [where sz = 3 and h = ex_memory and c = g_client
          and data = "[1, 2, 3]" and s = g_server]
    incoming_error_ladder [where sz = 8 and h = ex_memory and c = g_client
          and data = frame_bad_crc and s = g_server]
    frames_valid(10)
  by (simp add: HeaderSize_def)

subsection \<open>Outgoing frames\<close>

text \<open>
  \<^bold>\<open>C7\<close> Every frame passed to a send callback is well-formed. With transmit buffers
  of \<^verbatim>\<open>PROTO_BUS_BUFFER_SIZE\<close> bytes, every frame \<open>f\<close> of \<open>n\<close> bytes that
  \<^verbatim>\<open>getData\<close>, \<^verbatim>\<open>setData\<close> or the server's \<^verbatim>\<open>inputData\<close> passes to the send
  callback has at least header plus checksum (8) and at most
  \<^verbatim>\<open>PROTO_BUS_BUFFER_SIZE\<close> bytes, and its last two bytes verify as its checksum
  (\<open>frame_ok\<close>). A \<^verbatim>\<open>GetReq\<close> and a \<^verbatim>\<open>SetResp\<close> have no payload (\<open>n\<close> is header + 2);
  a \<^verbatim>\<open>SetReq\<close> has the size of the binding it was built from, and a \<^verbatim>\<open>GetResp\<close> the
  size of the slot the scan stopped at. The client's \<^verbatim>\<open>inputData\<close> sends nothing.
\<close>

theorem sent_frames_well_formed:
  assumes "length (m_buffer_c c) = PROTO_BUS_BUFFER_SIZE"
    and "length (m_buffer_s s) = PROTO_BUS_BUFFER_SIZE"
  shows "(\<forall>f n. Send f n \<in> set (snd (snd (getData c serverId slot))) \<longrightarrow>
            frame_ok f n \<and> f ! FrameFunction = GetReq \<and> unat n = unat HeaderSize + 2)
       \<and> (\<forall>f n. Send f n \<in> set (snd (snd (setData h c serverId slot))) \<longrightarrow>
            frame_ok f n \<and> f ! FrameFunction = SetReq
            \<and> unat n = unat HeaderSize + unat (sd_size (m_serveSlots c ! unat slot)) + 2)
       \<and> (\<forall>f n. Send f n \<notin> set (snd (snd (inputData_c h c data sz))))
       \<and> (\<forall>f n. Send f n \<in> set (snd (snd (snd (inputData_s h s data sz)))) \<longrightarrow>
            frame_ok f n
            \<and> (f ! FrameFunction = SetResp \<and> unat n = unat HeaderSize + 2
                \<or> f ! FrameFunction = GetResp
                  \<and> (\<exists>j. first_slot s (data ! FrameSlotId) j
                        \<and> unat n = unat HeaderSize + unat (cs_size (m_clientSlots s ! j)) + 2)))"
proof (intro conjI allI impI)
  fix f n assume "Send f n \<in> set (snd (snd (getData c serverId slot)))"
  from getData_sends [OF assms(1) this]
  show "frame_ok f n" "f ! FrameFunction = GetReq" "unat n = unat HeaderSize + 2"
    by simp_all
next
  fix f n assume "Send f n \<in> set (snd (snd (setData h c serverId slot)))"
  from setData_sends [OF assms(1) this]
  show "frame_ok f n" "f ! FrameFunction = SetReq"
    "unat n = unat HeaderSize + unat (sd_size (m_serveSlots c ! unat slot)) + 2"
    by simp_all
next
  fix f n show "Send f n \<notin> set (snd (snd (inputData_c h c data sz)))"
    by (rule inputData_c_no_send)
next
  fix f n assume a: "Send f n \<in> set (snd (snd (snd (inputData_s h s data sz))))"
  from inputData_s_sends [OF assms(2) a] show "frame_ok f n"
    by simp
  from inputData_s_sends [OF assms(2) a]
  show "f ! FrameFunction = SetResp \<and> unat n = unat HeaderSize + 2
        \<or> f ! FrameFunction = GetResp
          \<and> (\<exists>j. first_slot s (data ! FrameSlotId) j
                \<and> unat n = unat HeaderSize + unat (cs_size (m_clientSlots s ! j)) + 2)"
    by blast
qed

theorem sent_frames_well_formed_witness:
  "length (m_buffer_c g_client) = PROTO_BUS_BUFFER_SIZE
   \<and> length (m_buffer_s g_server) = PROTO_BUS_BUFFER_SIZE
   \<and> Send frame_GetReq_2 8 \<in> set (snd (snd (getData g_client kServerId 1)))
   \<and> frame_ok frame_GetReq_2 8 \<and> frame_GetReq_2 ! FrameFunction = GetReq
   \<and> Send frame_SetReq_2_mirror 12 \<in> set (snd (snd (setData ex_memory g_client kServerId 1)))
   \<and> frame_ok frame_SetReq_2_mirror 12 \<and> frame_SetReq_2_mirror ! FrameFunction = SetReq
   \<and> unat (12::u8) = unat HeaderSize + unat (sd_size (m_serveSlots g_client ! unat (1::u8))) + 2
   \<and> Send frame_GetResp_2 12
        \<in> set (snd (snd (snd (inputData_s ex_memory g_server frame_GetReq_2 8))))
   \<and> frame_ok frame_GetResp_2 12
   \<and> Send frame_SetResp_2 8
        \<in> set (snd (snd (snd (inputData_s ex_memory g_server frame_SetReq_2 12))))
   \<and> frame_ok frame_SetResp_2 8"
proof -
  have h1: "length (m_buffer_c g_client) = PROTO_BUS_BUFFER_SIZE"
    by (simp add: g_client_def PROTO_BUS_BUFFER_SIZE_def)
  have h2: "length (m_buffer_s g_server) = PROTO_BUS_BUFFER_SIZE"
    by (simp add: g_server_def PROTO_BUS_BUFFER_SIZE_def)
  have m1: "Send frame_GetReq_2 8 \<in> set (snd (snd (getData g_client kServerId 1)))"
    by (simp add: getData_example)
  have m2: "Send frame_SetReq_2_mirror 12
              \<in> set (snd (snd (setData ex_memory g_client kServerId 1)))"
    by (simp add: setData_example)
  have m3: "Send frame_GetResp_2 12
              \<in> set (snd (snd (snd (inputData_s ex_memory g_server frame_GetReq_2 8))))"
    by (simp add: inputData_s_GetReq_example)
  have m4: "Send frame_SetResp_2 8
              \<in> set (snd (snd (snd (inputData_s ex_memory g_server frame_SetReq_2 12))))"
    by (simp add: inputData_s_SetReq_example)
  note t1 = sent_frames_well_formed [OF h1 h2, where serverId = kServerId and slot = 1
      and h = ex_memory and data = frame_GetReq_2 and sz = 8]
  note t2 = sent_frames_well_formed [OF h1 h2, where serverId = kServerId and slot = 1
      and h = ex_memory and data = frame_SetReq_2 and sz = 12]
  from t1 m1 have c1: "frame_ok frame_GetReq_2 8 \<and> frame_GetReq_2 ! FrameFunction = GetReq"
    by blast
  from t1 m2 have c2: "frame_ok frame_SetReq_2_mirror 12
      \<and> frame_SetReq_2_mirror ! FrameFunction = SetReq
      \<and> unat (12::u8)
          = unat HeaderSize + unat (sd_size (m_serveSlots g_client ! unat (1::u8))) + 2"
    by blast
  from t1 m3 have c3: "frame_ok frame_GetResp_2 12"
    by blast
  from t2 m4 have c4: "frame_ok frame_SetResp_2 8"
    by blast
  from h1 h2 m1 m2 m3 m4 c1 c2 c3 c4 show ?thesis
    by blast
qed

subsection \<open>Unmatched traffic\<close>

text \<open>
  \<^bold>\<open>C8\<close> Silent no-op on unmatched traffic. For every frame of at least 8 bytes with a
  valid checksum: (a) a \<^verbatim>\<open>GetResp\<close> whose server id and slot id match no registered
  binding, and any \<^verbatim>\<open>SetResp\<close>, make the client's \<^verbatim>\<open>inputData\<close> return \<^verbatim>\<open>ok\<close>
  with the memory unchanged and no callback invoked; (b) a \<^verbatim>\<open>GetReq\<close> or \<^verbatim>\<open>SetReq\<close>
  with the server's identifier whose slot id matches no registered slot makes the
  server's \<^verbatim>\<open>inputData\<close> return \<^verbatim>\<open>ok\<close> with nothing sent, no callback invoked and
  memory and server object unchanged.
\<close>

theorem unmatched_traffic_ignored:
  "(unat HeaderSize + 2 \<le> unat sz \<and> checkCRC16 data sz \<longrightarrow>
      (data ! FrameFunction = GetResp
         \<and> no_binding c (read_le32 data FrameServerId) (data ! FrameSlotId) \<longrightarrow>
       inputData_c h c data sz = (ok, h, []))
      \<and> (data ! FrameFunction = SetResp \<longrightarrow> inputData_c h c data sz = (ok, h, []))
      \<and> (read_le32 data FrameServerId = m_serverId s
         \<and> (data ! FrameFunction = GetReq \<or> data ! FrameFunction = SetReq)
         \<and> no_slot s (data ! FrameSlotId) \<longrightarrow>
       inputData_s h s data sz = (ok, h, s, [])))"
  by (auto simp add: inputData_c_def inputData_s_def Let_def size_ok
        getResp_loop_no_binding getReq_loop_no_slot setReq_loop_no_slot
        GetReq_def SetReq_def GetResp_def SetResp_def)

theorem unmatched_traffic_ignored_witness:
  "unat HeaderSize + 2 \<le> unat (8::u8)
   \<and> checkCRC16 frame_GetResp_9 8 \<and> frame_GetResp_9 ! FrameFunction = GetResp
   \<and> no_binding g_client (read_le32 frame_GetResp_9 FrameServerId) (frame_GetResp_9 ! FrameSlotId)
   \<and> inputData_c ex_memory g_client frame_GetResp_9 8 = (ok, ex_memory, [])
   \<and> checkCRC16 frame_SetResp_2 8 \<and> frame_SetResp_2 ! FrameFunction = SetResp
   \<and> inputData_c ex_memory g_client frame_SetResp_2 8 = (ok, ex_memory, [])
   \<and> checkCRC16 frame_GetReq_9 8 \<and> frame_GetReq_9 ! FrameFunction = GetReq
   \<and> read_le32 frame_GetReq_9 FrameServerId = m_serverId g_server
   \<and> no_slot g_server (frame_GetReq_9 ! FrameSlotId)
   \<and> inputData_s ex_memory g_server frame_GetReq_9 8 = (ok, ex_memory, g_server, [])
   \<and> checkCRC16 frame_SetReq_9 8 \<and> frame_SetReq_9 ! FrameFunction = SetReq
   \<and> read_le32 frame_SetReq_9 FrameServerId = m_serverId g_server
   \<and> no_slot g_server (frame_SetReq_9 ! FrameSlotId)
   \<and> inputData_s ex_memory g_server frame_SetReq_9 8 = (ok, ex_memory, g_server, [])"
proof -
  have h: "unat HeaderSize + 2 \<le> unat (8::u8)"
    "frame_GetResp_9 ! FrameFunction = GetResp"
    "no_binding g_client (read_le32 frame_GetResp_9 FrameServerId) (frame_GetResp_9 ! FrameSlotId)"
    "frame_SetResp_2 ! FrameFunction = SetResp"
    "frame_GetReq_9 ! FrameFunction = GetReq"
    "read_le32 frame_GetReq_9 FrameServerId = m_serverId g_server"
    "no_slot g_server (frame_GetReq_9 ! FrameSlotId)"
    "frame_SetReq_9 ! FrameFunction = SetReq"
    "read_le32 frame_SetReq_9 FrameServerId = m_serverId g_server"
    "no_slot g_server (frame_SetReq_9 ! FrameSlotId)"
    by (simp_all add: ex_defs layout_defs table_defs read_le32_def upt_0_2)
  from h frames_valid
    unmatched_traffic_ignored [where sz = 8 and data = frame_GetResp_9 and c = g_client
      and h = ex_memory and s = g_server]
    unmatched_traffic_ignored [where sz = 8 and data = frame_SetResp_2 and c = g_client
      and h = ex_memory and s = g_server]
    unmatched_traffic_ignored [where sz = 8 and data = frame_GetReq_9 and c = g_client
      and h = ex_memory and s = g_server]
    unmatched_traffic_ignored [where sz = 8 and data = frame_SetReq_9 and c = g_client
      and h = ex_memory and s = g_server]
  show ?thesis
    by simp
qed

subsection \<open>Slot-table invariant\<close>

text \<open>
  \<^bold>\<open>C9\<close> Slot-table invariant. After any sequence of calls of the public member
  functions on a freshly constructed client or server, the count of registered entries
  is within the capacity, and every registered entry has a buffer that is not null and
  a size with header + size + 2 within \<^verbatim>\<open>PROTO_BUS_BUFFER_SIZE\<close>
  (\<open>client_table_ok\<close>, \<open>server_table_ok\<close>). So \<^verbatim>\<open>getData\<close> and \<^verbatim>\<open>setData\<close> never
  return \<^verbatim>\<open>errFault\<close>, which they return only from the null-buffer branch, and the
  server's \<^verbatim>\<open>inputData\<close> never returns \<^verbatim>\<open>errOverflow\<close>, which it returns only from
  the size check of the \<^verbatim>\<open>GetReq\<close> branch and of the acknowledgement.
\<close>

theorem slot_table_invariant:
  assumes "length slots_c = unat n_c" and "length buf_c = PROTO_BUS_BUFFER_SIZE"
    and "length slots_s = unat n_s" and "length buf_s = PROTO_BUS_BUFFER_SIZE"
  shows "client_table_ok
           (snd (foldl client_do (hc, SyncBusClient_new n_c scb_c dcb_c slots_c buf_c) calls_c))
       \<and> (\<forall>serverId slot h.
             fst (getData
                    (snd (foldl client_do (hc, SyncBusClient_new n_c scb_c dcb_c slots_c buf_c)
                            calls_c))
                    serverId slot) \<noteq> errFault
           \<and> fst (setData h
                    (snd (foldl client_do (hc, SyncBusClient_new n_c scb_c dcb_c slots_c buf_c)
                            calls_c))
                    serverId slot) \<noteq> errFault)
       \<and> server_table_ok
           (snd (foldl server_do (hs, SyncBusServer_new n_s ident scb_s dcb_s slots_s buf_s)
                   calls_s))
       \<and> (\<forall>h data sz.
             fst (inputData_s h
                    (snd (foldl server_do
                            (hs, SyncBusServer_new n_s ident scb_s dcb_s slots_s buf_s) calls_s))
                    data sz) \<noteq> errOverflow)"
proof -
  let ?c = "snd (foldl client_do (hc, SyncBusClient_new n_c scb_c dcb_c slots_c buf_c) calls_c)"
  let ?s = "snd (foldl server_do (hs, SyncBusServer_new n_s ident scb_s dcb_s slots_s buf_s)
                   calls_s)"
  have c: "client_arrays ?c \<and> client_table_ok ?c"
    using client_new_ok [OF assms(1,2), of scb_c dcb_c] by (intro client_run_ok) simp_all
  have s: "server_arrays ?s \<and> server_table_ok ?s"
    using server_new_ok [OF assms(3,4), of ident scb_s dcb_s] by (intro server_run_ok) simp_all
  from c s show ?thesis
    by (simp add: getData_no_fault setData_no_fault inputData_s_ok)
qed

theorem slot_table_invariant_witness:
  "length (replicate 4 \<lparr>sd_data = 0, sd_serverId = 0, sd_slotId = 0, sd_size = 0\<rparr>)
     = unat (4::u8)
   \<and> length (replicate 64 (0::u8)) = PROTO_BUS_BUFFER_SIZE
   \<and> length (replicate 4 \<lparr>cs_data = 0, cs_slotId = 0, cs_size = 0\<rparr>) = unat (4::u8)
   \<and> client_table_ok
        (snd (foldl client_do
                (ex_memory,
                 SyncBusClient_new 4 True True
                   (replicate 4 \<lparr>sd_data = 0, sd_serverId = 0, sd_slotId = 0, sd_size = 0\<rparr>)
                   (replicate 64 0))
                [Client_addData 200 kServerId 1 1, Client_addData 0 kServerId 7 1,
                 Client_addData 204 kServerId 2 4, Client_addData 208 kServerId 3 60,
                 Client_getData kServerId 1, Client_inputData frame_GetResp_2 12]))
   \<and> fst (getData
            (snd (foldl client_do
                (ex_memory,
                 SyncBusClient_new 4 True True
                   (replicate 4 \<lparr>sd_data = 0, sd_serverId = 0, sd_slotId = 0, sd_size = 0\<rparr>)
                   (replicate 64 0))
                [Client_addData 200 kServerId 1 1, Client_addData 0 kServerId 7 1,
                 Client_addData 204 kServerId 2 4, Client_addData 208 kServerId 3 60,
                 Client_getData kServerId 1, Client_inputData frame_GetResp_2 12]))
            kServerId 1) \<noteq> errFault
   \<and> server_table_ok
        (snd (foldl server_do
                (ex_memory,
                 SyncBusServer_new 4 kServerId True True
                   (replicate 4 \<lparr>cs_data = 0, cs_slotId = 0, cs_size = 0\<rparr>) (replicate 64 0))
                [Server_addSlot 100 1 1, Server_addSlot 104 2 4, Server_addSlot 108 3 60,
                 Server_inputData frame_GetReq_2 8, Server_setId 7]))
   \<and> fst (inputData_s ex_memory
            (snd (foldl server_do
                (ex_memory,
                 SyncBusServer_new 4 kServerId True True
                   (replicate 4 \<lparr>cs_data = 0, cs_slotId = 0, cs_size = 0\<rparr>) (replicate 64 0))
                [Server_addSlot 100 1 1, Server_addSlot 104 2 4, Server_addSlot 108 3 60,
                 Server_inputData frame_GetReq_2 8, Server_setId 7]))
            frame_GetReq_2 8) \<noteq> errOverflow"
proof -
  have h1: "length (replicate 4 \<lparr>sd_data = 0, sd_serverId = 0, sd_slotId = 0, sd_size = 0\<rparr>)
              = unat (4::u8)"
    by simp
  have h2: "length (replicate 64 (0::u8)) = PROTO_BUS_BUFFER_SIZE"
    by (simp add: PROTO_BUS_BUFFER_SIZE_def)
  have h3: "length (replicate 4 \<lparr>cs_data = 0, cs_slotId = 0, cs_size = 0\<rparr>) = unat (4::u8)"
    by simp
  from slot_table_invariant [OF h1 h2 h3 h2, where hc = ex_memory and hs = ex_memory
      and scb_c = True and dcb_c = True and scb_s = True and dcb_s = True and ident = kServerId
      and calls_c = "[Client_addData 200 kServerId 1 1, Client_addData 0 kServerId 7 1,
                 Client_addData 204 kServerId 2 4, Client_addData 208 kServerId 3 60,
                 Client_getData kServerId 1, Client_inputData frame_GetResp_2 12]"
      and calls_s = "[Server_addSlot 100 1 1, Server_addSlot 104 2 4, Server_addSlot 108 3 60,
                 Server_inputData frame_GetReq_2 8, Server_setId 7]"]
    h1 h2 h3
  show ?thesis
    by blast
qed

subsection \<open>Redirected GET\<close>

text \<open>
  \<^bold>\<open>C10\<close> Redirected GET responses are dropped. Whenever the client's \<^verbatim>\<open>inputData\<close>
  changes the memory or invokes a callback, it has written the buffer of a registered
  binding whose server id and slot id are those of the frame. So when \<^verbatim>\<open>getData\<close> is
  called with a server id \<open>R\<close> for which the client has no binding with the slot id of
  the binding at \<open>slot\<close>, and the server with identifier \<open>R\<close> has that slot and
  answers, the GET over the wiring returns \<^verbatim>\<open>ok\<close> from all three calls, leaves the
  client's memory as it was and invokes no callback of the client.
\<close>

theorem redirected_get_dropped:
  "(inputData_c h c data sz = (r, h1, ev) \<and> (h1 \<noteq> h \<or> ev \<noteq> []) \<longrightarrow>
      (\<exists>j. j < unat (m_numSlots_c c)
           \<and> sd_serverId (m_serveSlots c ! j) = read_le32 data FrameServerId
           \<and> sd_slotId (m_serveSlots c ! j) = data ! FrameSlotId
           \<and> h1 = memcpy_to_mem h (sd_data (m_serveSlots c ! j))
                    (take (unat (sd_size (m_serveSlots c ! j))) (drop FrameData data))))
   \<and> (client_arrays c \<and> client_table_ok c \<and> m_sendData_cb_c c \<and> slot < m_numSlots_c c
       \<and> server_arrays s \<and> server_table_ok s \<and> m_sendData_cb_s s \<and> m_serverId s = R
       \<and> first_slot s (sd_slotId (m_serveSlots c ! unat slot)) i
       \<and> no_binding c R (sd_slotId (m_serveSlots c ! unat slot)) \<longrightarrow>
       get_exchange hc c hs s R slot = ([ok, ok, ok], hc, []))"
proof (intro conjI impI; elim conjE)
  assume e: "inputData_c h c data sz = (r, h1, ev)" and ch: "h1 \<noteq> h \<or> ev \<noteq> []"
  from inputData_c_cases [of h c data sz] e ch
  obtain j where fb: "first_binding c (read_le32 data FrameServerId) (data ! FrameSlotId) j"
    and a: "inputData_c h c data sz
              = getResp_apply h c data (data ! FrameSlotId) (sz - HeaderSize - 2) (of_nat j)"
    by auto
  have lt: "j < unat (m_numSlots_c c)"
    using fb by (simp add: first_binding_def)
  have j: "unat (of_nat j :: u8) = j"
    using lt by (rule unat_of_nat_u8)
  have "h1 = memcpy_to_mem h (sd_data (m_serveSlots c ! j))
               (take (unat (sd_size (m_serveSlots c ! j))) (drop FrameData data))"
    using e ch a by (auto simp add: getResp_apply_def j split: if_splits)
  with fb lt show "\<exists>j. j < unat (m_numSlots_c c)
           \<and> sd_serverId (m_serveSlots c ! j) = read_le32 data FrameServerId
           \<and> sd_slotId (m_serveSlots c ! j) = data ! FrameSlotId
           \<and> h1 = memcpy_to_mem h (sd_data (m_serveSlots c ! j))
                    (take (unat (sd_size (m_serveSlots c ! j))) (drop FrameData data))"
    by (auto simp add: first_binding_def binding_matches_def)
next
  assume "client_arrays c" "client_table_ok c" "m_sendData_cb_c c" "slot < m_numSlots_c c"
    "server_arrays s" "server_table_ok s" "m_sendData_cb_s s" "m_serverId s = R"
    "first_slot s (sd_slotId (m_serveSlots c ! unat slot)) i"
    "no_binding c R (sd_slotId (m_serveSlots c ! unat slot))"
  then show "get_exchange hc c hs s R slot = ([ok, ok, ok], hc, [])"
    by (rule get_exchange_ignored)
qed

theorem redirected_get_dropped_witness:
  "inputData_c ex_memory g_client frame_GetResp_2 12
     = (ok, memcpy_to_mem ex_memory 204 [104, 105, 106, 107], [Changed 2])
   \<and> [Changed 2] \<noteq> []
   \<and> (\<exists>j. j < unat (m_numSlots_c g_client)
         \<and> sd_serverId (m_serveSlots g_client ! j) = read_le32 frame_GetResp_2 FrameServerId
         \<and> sd_slotId (m_serveSlots g_client ! j) = frame_GetResp_2 ! FrameSlotId
         \<and> memcpy_to_mem ex_memory 204 [104, 105, 106, 107]
             = memcpy_to_mem ex_memory (sd_data (m_serveSlots g_client ! j))
                 (take (unat (sd_size (m_serveSlots g_client ! j)))
                    (drop FrameData frame_GetResp_2)))
   \<and> client_arrays g_client \<and> client_table_ok g_client \<and> m_sendData_cb_c g_client
   \<and> (1::u8) < m_numSlots_c g_client
   \<and> server_arrays (setId g_server 0x99) \<and> server_table_ok (setId g_server 0x99)
   \<and> m_sendData_cb_s (setId g_server 0x99) \<and> m_serverId (setId g_server 0x99) = 0x99
   \<and> first_slot (setId g_server 0x99) (sd_slotId (m_serveSlots g_client ! unat (1::u8))) 1
   \<and> no_binding g_client 0x99 (sd_slotId (m_serveSlots g_client ! unat (1::u8)))
   \<and> get_exchange ex_memory g_client ex_memory (setId g_server 0x99) 0x99 1
       = ([ok, ok, ok], ex_memory, [])"
proof -
  have v: "unat HeaderSize + 2 \<le> unat (12::u8)" "frame_GetResp_2 ! FrameFunction = GetResp"
    "first_binding g_client (read_le32 frame_GetResp_2 FrameServerId)
       (frame_GetResp_2 ! FrameSlotId) 1"
    "unat (12::u8) - unat HeaderSize - 2 = unat (sd_size (m_serveSlots g_client ! 1))"
    by (simp_all add: g_client_def frame_GetResp_2_def layout_defs table_defs read_le32_def
          kServerId_def)
  have a: "inputData_c ex_memory g_client frame_GetResp_2 12
             = (ok, memcpy_to_mem ex_memory 204 [104, 105, 106, 107], [Changed 2])"
    using inputData_c_GetResp [OF v(1) frame_GetResp_2_valid v(2,3,4), of ex_memory]
    by (simp add: g_client_def frame_GetResp_2_def layout_defs call_dataChanged_cb_def)
  have b: "[Changed 2] \<noteq> []"
    by simp
  have h: "m_sendData_cb_c g_client" "(1::u8) < m_numSlots_c g_client"
    "server_arrays (setId g_server 0x99)" "server_table_ok (setId g_server 0x99)"
    "m_sendData_cb_s (setId g_server 0x99)" "m_serverId (setId g_server 0x99) = 0x99"
    "first_slot (setId g_server 0x99) (sd_slotId (m_serveSlots g_client ! unat (1::u8))) 1"
    "no_binding g_client 0x99 (sd_slotId (m_serveSlots g_client ! unat (1::u8)))"
    using example_states_ok(3,4)
    by (simp_all add: setId_def server_arrays_def server_table_ok_def g_client_def g_server_def
          table_defs kServerId_def upt_0_2)
  note t = redirected_get_dropped [where h = ex_memory and c = g_client
      and data = frame_GetResp_2 and sz = 12 and r = ok
      and ?h1.0 = "memcpy_to_mem ex_memory 204 [104, 105, 106, 107]" and ev = "[Changed 2]"
      and slot = 1 and s = "setId g_server 0x99" and R = "0x99" and i = 1
      and hc = ex_memory and hs = ex_memory]
  from t a b have c1: "\<exists>j. j < unat (m_numSlots_c g_client)
         \<and> sd_serverId (m_serveSlots g_client ! j) = read_le32 frame_GetResp_2 FrameServerId
         \<and> sd_slotId (m_serveSlots g_client ! j) = frame_GetResp_2 ! FrameSlotId
         \<and> memcpy_to_mem ex_memory 204 [104, 105, 106, 107]
             = memcpy_to_mem ex_memory (sd_data (m_serveSlots g_client ! j))
                 (take (unat (sd_size (m_serveSlots g_client ! j)))
                    (drop FrameData frame_GetResp_2))"
    by blast
  from t example_states_ok(1,2) h
  have c2: "get_exchange ex_memory g_client ex_memory (setId g_server 0x99) 0x99 1
              = ([ok, ok, ok], ex_memory, [])"
    by blast
  from a b c1 c2 example_states_ok(1,2) h show ?thesis
    by blast
qed

end
